theory Spec2Isabelle
  imports Complex_Main "HOL-Library.Word" "HOL-Library.Log_Nat"
begin

section \<open>Numbers, dice and the probability engine\<close>

text \<open>
  The repository holds two implementations of the same game: \<^verbatim>\<open>game.js\<close> and
  \<^verbatim>\<open>index.ts\<close>. Where both declare a class member of the same name, the constant
  embedding the one of \<^verbatim>\<open>game.js\<close> ends in \<open>_js\<close> and the one of \<^verbatim>\<open>index.ts\<close> in
  \<open>_ts\<close>; members that exist in one file only keep their name.

  JavaScript numbers that hold integers are modelled as \<open>int\<close> (exact below \<open>2 ^ 53\<close>),
  a number that may be \<^verbatim>\<open>NaN\<close> as \<open>number\<close>, a value that may be \<^verbatim>\<open>undefined\<close> as an
  \<open>option\<close>, and one that may be \<^verbatim>\<open>null\<close> as a \<open>nullable\<close>. A number that need not be an integer
  (the quotient the probability functions return) is the rational value of the IEEE 754
  binary64 number the program holds.
\<close>

text \<open>
  A \<^verbatim>\<open>Dice\<close> object. Objects are compared by reference (\<^verbatim>\<open>d !== userDice\<close>,
  \<^verbatim>\<open>d1 === d2\<close>), so the record carries the object's reference next to its field.
\<close>

record dice =
  ref :: nat
  faces :: "int list"

text \<open>\<^verbatim>\<open>this.faces[index]\<close>: \<^verbatim>\<open>undefined\<close> unless the index is an integer inside the array.\<close>

datatype number = Num int | NaN

definition getFace :: "dice \<Rightarrow> number \<Rightarrow> int option" where
  "getFace d index =
     (case index of
        NaN \<Rightarrow> None
      | Num i \<Rightarrow> if 0 \<le> i \<and> i < int (length (faces d)) then Some (faces d ! nat i) else None)"

definition numFaces :: "dice \<Rightarrow> nat" where
  "numFaces d = length (faces d)"

text \<open>The nested \<^verbatim>\<open>for ... of\<close> loops of both probability functions, with the counter threaded.\<close>

definition countWins :: "int list \<Rightarrow> int list \<Rightarrow> nat" where
  "countWins facesA facesB =
     foldl (\<lambda>winCount a. foldl (\<lambda>winCount b. if a > b then winCount + 1 else winCount) winCount facesB)
       0 facesA"

text \<open>
  Arithmetic on numbers: the result of \<^verbatim>\<open>/\<close> and of \<^verbatim>\<open>+\<close> is the binary64 number nearest to the
  exact result, ties going to the even significand. \<open>exponent x\<close> is the integer \<open>e\<close> with
  \<open>2 ^ e \<le> x < 2 ^ (e + 1)\<close>, \<open>ulp x\<close> the distance between neighbouring binary64 numbers
  at \<open>x\<close> (53 significant bits; below \<open>2 ^ - 1022\<close> the subnormal spacing), and \<open>double x\<close> the
  rounded value, for \<open>x\<close> of magnitude below \<open>2 ^ 1024\<close>: no quotient or sum of this program
  comes near that bound.
\<close>

definition exponent :: "rat \<Rightarrow> int" where
  "exponent x = (if 1 \<le> x then bitlen \<lfloor>x\<rfloor> - 1 else - bitlen (\<lceil>1 / x\<rceil> - 1))"

definition ulp :: "rat \<Rightarrow> rat" where
  "ulp x = 2 powi (max (exponent x) (- 1022) - 52)"

definition roundHalfEven :: "rat \<Rightarrow> int" where
  "roundHalfEven m =
     (let f = \<lfloor>m\<rfloor>; r = m - of_int f
      in if r < 1 / 2 then f else if 1 / 2 < r then f + 1 else if even f then f else f + 1)"

definition double :: "rat \<Rightarrow> rat" where
  "double x =
     (if x = 0 then 0 else sgn x * of_int (roundHalfEven (\<bar>x\<bar> / ulp \<bar>x\<bar>)) * ulp \<bar>x\<bar>)"

text \<open>
  \<^verbatim>\<open>ProbabilityCalculator.calculateWinProbability\<close> of \<^verbatim>\<open>game.js\<close>: \<^verbatim>\<open>winCount / 36\<close>, the
  divisor being the literal 36. The counter is an integer, held exactly.
\<close>

definition calculateWinProbability :: "dice \<Rightarrow> dice \<Rightarrow> rat" where
  "calculateWinProbability diceA diceB = double (of_nat (countWins (faces diceA) (faces diceB)) / 36)"

text \<open>\<^verbatim>\<open>ProbabilityCalculator.calculate\<close> of \<^verbatim>\<open>index.ts\<close>: \<^verbatim>\<open>total > 0 ? wins / total : 0\<close>.\<close>

definition calculate :: "dice \<Rightarrow> dice \<Rightarrow> rat" where
  "calculate dice1 dice2 =
     (let wins = countWins (faces dice1) (faces dice2);
          total = numFaces dice1 * numFaces dice2
      in if total > 0 then double (of_nat wins / of_nat total) else 0)"

text \<open>
  The specification's reading of the win probability, for comparison with the loops: the
  number of ordered pairs of the cross product whose first component is greater, and the
  number of pairs with equal components, each over the size of the cross product, as
  exact fractions.
\<close>

definition spec_winPairs :: "int list \<Rightarrow> int list \<Rightarrow> nat" where
  "spec_winPairs fa fb = length (filter (\<lambda>(a, b). a > b) (List.product fa fb))"

definition spec_tiePairs :: "int list \<Rightarrow> int list \<Rightarrow> nat" where
  "spec_tiePairs fa fb = length (filter (\<lambda>(a, b). a = b) (List.product fa fb))"

definition spec_winProbability :: "dice \<Rightarrow> dice \<Rightarrow> rat" where
  "spec_winProbability A B =
     of_nat (spec_winPairs (faces A) (faces B)) / of_nat (length (faces A) * length (faces B))"

definition spec_tieFraction :: "dice \<Rightarrow> dice \<Rightarrow> rat" where
  "spec_tieFraction A B =
     of_nat (spec_tiePairs (faces A) (faces B)) / of_nat (length (faces A) * length (faces B))"

section \<open>Strings, bytes and the library functions the program calls\<close>

text \<open>
  Strings are lists of 8-bit characters; the inputs the program tests for are ASCII
  (digits, \<^verbatim>\<open>X\<close>, \<^verbatim>\<open>?\<close>, signs, commas and white space).
\<close>

type_synonym byte = "8 word"

definition isWhiteSpace :: "char \<Rightarrow> bool" where
  "isWhiteSpace c = ((of_char c :: nat) \<in> {9, 10, 11, 12, 13, 32, 160})"

definition isDigit :: "char \<Rightarrow> bool" where
  "isDigit c = (48 \<le> (of_char c :: nat) \<and> (of_char c :: nat) \<le> 57)"

text \<open>\<^verbatim>\<open>String.prototype.trim\<close> and \<^verbatim>\<open>toUpperCase\<close>.\<close>

definition trim :: "string \<Rightarrow> string" where
  "trim s = rev (dropWhile isWhiteSpace (rev (dropWhile isWhiteSpace s)))"

definition toUpperCase :: "string \<Rightarrow> string" where
  "toUpperCase s =
     map (\<lambda>c. if 97 \<le> (of_char c :: nat) \<and> (of_char c :: nat) \<le> 122
              then char_of ((of_char c :: nat) - 32) else c) s"

text \<open>
  \<^verbatim>\<open>parseInt(s, 10)\<close>: leading white space is skipped, one sign is read, then the longest
  run of decimal digits; \<^verbatim>\<open>NaN\<close> (\<open>None\<close>) when that run is empty. What follows the digits
  is ignored.
\<close>

definition digitsValue :: "string \<Rightarrow> int" where
  "digitsValue z = foldl (\<lambda>v c. 10 * v + (int (of_char c) - 48)) 0 z"

definition parseInt :: "string \<Rightarrow> int option" where
  "parseInt s =
     (let t = dropWhile isWhiteSpace s;
          sign = (case t of c # r \<Rightarrow> if c = CHR ''-'' then - 1 else 1 | [] \<Rightarrow> (1::int));
          u = (case t of c # r \<Rightarrow> if c = CHR ''-'' \<or> c = CHR ''+'' then r else t | [] \<Rightarrow> t);
          z = takeWhile isDigit u
      in if z = [] then None else Some (sign * digitsValue z))"

text \<open>\<^verbatim>\<open>arg.split(',')\<close>: never empty; the first argument is the piece being read, reversed.\<close>

fun splitComma :: "string \<Rightarrow> string \<Rightarrow> string list" where
  "splitComma cur [] = [rev cur]"
| "splitComma cur (c # cs) =
     (if c = CHR '','' then rev cur # splitComma [] cs else splitComma (c # cur) cs)"

text \<open>\<^verbatim>\<open>Number.prototype.toString\<close> of an integer (decimal, a minus sign when negative).\<close>

function decimal :: "nat \<Rightarrow> string" where
  "decimal n = (if n < 10 then [char_of (48 + n)] else decimal (n div 10) @ [char_of (48 + n mod 10)])"
  by pat_completeness auto
termination
  by (relation "measure id") auto

definition toString :: "int \<Rightarrow> string" where
  "toString n = (if n < 0 then CHR ''-'' # decimal (nat (- n)) else decimal (nat n))"

text \<open>\<^verbatim>\<open>buffer.toString('hex')\<close>, and \<^verbatim>\<open>Buffer.from(s, 'hex')\<close> with which a verifier reads a
  revealed key back (on a string of hexadecimal digit pairs).\<close>

definition hexDigit :: "nat \<Rightarrow> char" where
  "hexDigit n = (if n < 10 then char_of (48 + n) else char_of (87 + n))"

definition hexValue :: "char \<Rightarrow> nat" where
  "hexValue c = (if isDigit c then of_char c - 48 else of_char c - 87)"

definition toHex :: "byte list \<Rightarrow> string" where
  "toHex bs = concat (map (\<lambda>b. [hexDigit (unat b div 16), hexDigit (unat b mod 16)]) bs)"

fun fromHex :: "string \<Rightarrow> byte list" where
  "fromHex (h # l # cs) = of_nat (16 * hexValue h + hexValue l) # fromHex cs"
| "fromHex cs = []"

text \<open>
  The services of Node's \<^verbatim>\<open>crypto\<close> module are not part of the repository and are
  parameters of the model: \<open>hmacSha3 key message\<close> stands for
  \<^verbatim>\<open>crypto.createHmac('sha3-256', key).update(message).digest()\<close>, and \<open>entropy\<close> is the
  tape of values the random sources draw from, read cell by cell.
\<close>

record platform =
  hmacSha3 :: "byte list \<Rightarrow> byte list \<Rightarrow> byte list"
  entropy :: "nat \<Rightarrow> nat"

datatype party = Computer | User

text \<open>
  What a run shows: every console message, and the array each selection routine is called
  with (\<open>Offer\<close>) and the die it returns (\<open>Chose\<close>), which the program prints only in part.
\<close>

datatype event =
    Announce string
  | Commit int string
  | Ask int
  | HelpText
  | BadNumber int
  | Reveal int string
  | ResultLine int int number
  | FirstMover party
  | Offer party "dice list"
  | AskSelection
  | ShowTable "dice list"
  | InvalidSelection
  | Chose party dice
  | Roll party dice number "int option"
  | Win party
  | Draw

text \<open>
  The state a run threads: the lines the user will still type, the number of tape cells
  consumed, and the output so far.
\<close>

record world =
  inputs :: "string list"
  drawn :: nat
  out :: "event list"

text \<open>
  How a call ends: it returns, the process exits (\<^verbatim>\<open>process.exit(0)\<close>), it waits for a line
  that never comes, or it throws.
\<close>

datatype 'a res = Done 'a | Exited | Waiting | Threw

datatype 'a nullable = Null | Value 'a

definition andThen :: "'a res \<times> world \<Rightarrow> ('a \<Rightarrow> world \<Rightarrow> 'b res \<times> world) \<Rightarrow> 'b res \<times> world" where
  "andThen m k =
     (case m of
        (Done a, w) \<Rightarrow> k a w
      | (Exited, w) \<Rightarrow> (Exited, w)
      | (Waiting, w) \<Rightarrow> (Waiting, w)
      | (Threw, w) \<Rightarrow> (Threw, w))"

definition say :: "event \<Rightarrow> world \<Rightarrow> world" where
  "say e w = w\<lparr>out := out w @ [e]\<rparr>"

text \<open>\<^verbatim>\<open>crypto.randomBytes(n)\<close>.\<close>

definition randomBytes :: "platform \<Rightarrow> nat \<Rightarrow> world \<Rightarrow> byte list res \<times> world" where
  "randomBytes P n w =
     (Done (map (\<lambda>j. of_nat (entropy P (drawn w + j))) [0..<n]), w\<lparr>drawn := drawn w + n\<rparr>)"

text \<open>\<^verbatim>\<open>crypto.randomInt(max)\<close> and \<^verbatim>\<open>crypto.randomInt(0, max)\<close>: some integer of \<open>[0, max)\<close>,
  a \<^verbatim>\<open>RangeError\<close> unless \<open>0 < max\<close>.\<close>

definition randomInt :: "platform \<Rightarrow> int \<Rightarrow> world \<Rightarrow> int res \<times> world" where
  "randomInt P bound w =
     (if bound \<le> 0 then (Threw, w)
      else (Done (int (entropy P (drawn w)) mod bound), w\<lparr>drawn := drawn w + 1\<rparr>))"

text \<open>JavaScript's \<^verbatim>\<open>%\<close> on integers: the sign of the dividend, \<^verbatim>\<open>NaN\<close> for a zero divisor.\<close>

definition remainder :: "int \<Rightarrow> int \<Rightarrow> number" where
  "remainder a b = (if b = 0 then NaN else Num (sgn a * (\<bar>a\<bar> mod \<bar>b\<bar>)))"

text \<open>\<^verbatim>\<open>a > b\<close> on roll values: false when either side is \<^verbatim>\<open>undefined\<close>.\<close>

definition greater :: "int option \<Rightarrow> int option \<Rightarrow> bool" where
  "greater a b = (case (a, b) of (Some m, Some n) \<Rightarrow> m > n | _ \<Rightarrow> False)"

section \<open>The game of game.js\<close>

datatype error_js = AtLeastThreeDice | NotIntegers string | NotSixFaces nat string

text \<open>The callback of \<^verbatim>\<open>arg.split(',').map\<close>: the first value that is no integer throws.\<close>

fun parseValues_js :: "string list \<Rightarrow> int list option" where
  "parseValues_js [] = Some []"
| "parseValues_js (val # vals) =
     (case parseInt (trim val) of
        None \<Rightarrow> None
      | Some num \<Rightarrow> map_option ((#) num) (parseValues_js vals))"

text \<open>The loop of \<^verbatim>\<open>DiceParser.parseDiceConfigs\<close>; the \<open>n\<close>-th \<^verbatim>\<open>new Dice\<close> is object \<open>n\<close>.\<close>

fun parseLoop_js :: "nat \<Rightarrow> string list \<Rightarrow> error_js + dice list" where
  "parseLoop_js n [] = Inr []"
| "parseLoop_js n (arg # args) =
     (case parseValues_js (splitComma [] arg) of
        None \<Rightarrow> Inl (NotIntegers arg)
      | Some values \<Rightarrow>
          if length values \<noteq> 6 then Inl (NotSixFaces (length values) arg)
          else (case parseLoop_js (Suc n) args of
                  Inl e \<Rightarrow> Inl e
                | Inr diceList \<Rightarrow> Inr (\<lparr>ref = n, faces = values\<rparr> # diceList)))"

definition parseDiceConfigs :: "string list \<Rightarrow> error_js + dice list" where
  "parseDiceConfigs args = (if length args < 3 then Inl AtLeastThreeDice else parseLoop_js 0 args)"

text \<open>\<^verbatim>\<open>CryptoHelper.computeHMAC\<close>: \<^verbatim>\<open>Buffer.from([message])\<close> is the one byte \<open>message mod 256\<close>.\<close>

definition computeHMAC :: "platform \<Rightarrow> byte list \<Rightarrow> int \<Rightarrow> string" where
  "computeHMAC P key message = toHex (hmacSha3 P key [word_of_int message])"

text \<open>The class \<^verbatim>\<open>FairRandomGenerator\<close> of \<^verbatim>\<open>game.js\<close>: its fields, constructor and methods.\<close>

record generator =
  frg_range :: int
  frg_key :: "byte list"
  frg_x :: int
  frg_hmac :: string

definition newGenerator :: "platform \<Rightarrow> int \<Rightarrow> world \<Rightarrow> generator res \<times> world" where
  "newGenerator P rng w =
     andThen (randomBytes P 32 w) (\<lambda>key w.
     andThen (randomInt P rng w) (\<lambda>x w.
       (Done \<lparr>frg_range = rng, frg_key = key, frg_x = x, frg_hmac = computeHMAC P key x\<rparr>, w)))"

definition getHMAC :: "generator \<Rightarrow> string" where
  "getHMAC g = frg_hmac g"

definition computeResult :: "generator \<Rightarrow> int \<Rightarrow> number" where
  "computeResult g y = remainder (frg_x g + y) (frg_range g)"

definition reveal :: "generator \<Rightarrow> int \<times> string" where
  "reveal g = (frg_x g, toHex (frg_key g))"

text \<open>\<^verbatim>\<open>Game.getUserNumber\<close>: the \<^verbatim>\<open>while (true)\<close> loop reads one line per turn.\<close>

function getUserNumber :: "int \<Rightarrow> world \<Rightarrow> int res \<times> world" where
  "getUserNumber rng w =
     (case inputs w of
        [] \<Rightarrow> (Waiting, say (Ask rng) w)
      | line # rest \<Rightarrow>
          (let w1 = (say (Ask rng) w)\<lparr>inputs := rest\<rparr>;
               trimmed = toUpperCase (trim line)
           in if trimmed = ''X'' then (Exited, w1)
              else if trimmed = ''?'' then getUserNumber rng (say HelpText w1)
              else (case parseInt trimmed of
                      None \<Rightarrow> getUserNumber rng (say (BadNumber rng) w1)
                    | Some num \<Rightarrow>
                        if num \<ge> 0 \<and> num < rng then (Done num, w1)
                        else getUserNumber rng (say (BadNumber rng) w1))))"
  by pat_completeness auto
termination
  by (relation "measure (\<lambda>(rng, w). length (inputs w))") (auto simp: say_def)

text \<open>\<^verbatim>\<open>Game.selectDice\<close> of \<^verbatim>\<open>game.js\<close>; \<open>diceList\<close> is \<^verbatim>\<open>this.diceList\<close>.\<close>

function selectDice_js :: "dice list \<Rightarrow> dice list \<Rightarrow> world \<Rightarrow> dice res \<times> world" where
  "selectDice_js diceList availableDice w =
     (case inputs w of
        [] \<Rightarrow> (Waiting, say AskSelection (say (Offer User availableDice) w))
      | line # rest \<Rightarrow>
          (let w1 = (say AskSelection (say (Offer User availableDice) w))\<lparr>inputs := rest\<rparr>;
               trimmed = toUpperCase (trim line)
           in if trimmed = ''X'' then (Exited, w1)
              else if trimmed = ''?'' then selectDice_js diceList availableDice (say (ShowTable diceList) w1)
              else (case parseInt trimmed of
                      None \<Rightarrow> selectDice_js diceList availableDice (say InvalidSelection w1)
                    | Some index \<Rightarrow>
                        if index \<ge> 0 \<and> index < int (length availableDice)
                        then (Done (availableDice ! nat index), w1)
                        else selectDice_js diceList availableDice (say InvalidSelection w1))))"
  by pat_completeness auto
termination
  by (relation "measure (\<lambda>(diceList, availableDice, w). length (inputs w))") (auto simp: say_def)

text \<open>
  \<^verbatim>\<open>Game.computerSelectDice\<close>: \<^verbatim>\<open>Math.floor(Math.random() * n)\<close> is some index below \<open>n\<close>;
  on an empty array \<^verbatim>\<open>selected\<close> is \<^verbatim>\<open>undefined\<close> and \<^verbatim>\<open>selected.getFaces()\<close> throws.
\<close>

definition computerSelectDice :: "platform \<Rightarrow> dice list \<Rightarrow> world \<Rightarrow> dice res \<times> world" where
  "computerSelectDice P availableDice w =
     (let w0 = say (Offer Computer availableDice) w;
          w1 = w0\<lparr>drawn := drawn w0 + 1\<rparr>
      in if availableDice = [] then (Threw, w1)
         else (let index = entropy P (drawn w0) mod length availableDice;
                   selected = availableDice ! index
               in (Done selected, say (Chose Computer selected) w1)))"

text \<open>\<^verbatim>\<open>Game.start\<close>, lines 180 to 186: who makes the first move.\<close>

definition start_firstMove :: "platform \<Rightarrow> world \<Rightarrow> number res \<times> world" where
  "start_firstMove P w =
     andThen (newGenerator P 2 (say (Announce ''first move'') w)) (\<lambda>frg w.
     andThen (getUserNumber 2 (say (Commit 2 (getHMAC frg)) w)) (\<lambda>y w.
       (let firstMoveResult = computeResult frg y;
            (x, key) = reveal frg
        in (Done firstMoveResult, say (Reveal x key) w))))"

text \<open>Lines 188 to 199: the two selections; the result is \<open>(userDice, computerDice)\<close>.\<close>

definition start_selection :: "platform \<Rightarrow> dice list \<Rightarrow> number \<Rightarrow> world \<Rightarrow> (dice \<times> dice) res \<times> world" where
  "start_selection P diceList firstMoveResult w =
     (if firstMoveResult = Num 0 then
        andThen (selectDice_js diceList diceList (say (FirstMover User) w)) (\<lambda>userDice w.
          (let remaining = filter (\<lambda>d. ref d \<noteq> ref userDice) diceList
           in andThen (computerSelectDice P remaining (say (Chose User userDice) w)) (\<lambda>computerDice w.
                (Done (userDice, computerDice), w))))
      else
        andThen (computerSelectDice P diceList (say (FirstMover Computer) w)) (\<lambda>computerDice w.
          (let remaining = filter (\<lambda>d. ref d \<noteq> ref computerDice) diceList
           in andThen (selectDice_js diceList remaining w) (\<lambda>userDice w.
                (Done (userDice, computerDice), say (Chose User userDice) w)))))"

text \<open>Lines 201 to 210 and 212 to 221: one roll, the same code for either party's die.\<close>

definition start_roll :: "platform \<Rightarrow> party \<Rightarrow> dice \<Rightarrow> world \<Rightarrow> int option res \<times> world" where
  "start_roll P who die w =
     andThen (newGenerator P 6 (say (Announce ''roll'') w)) (\<lambda>frg w.
     andThen (getUserNumber 6 (say (Commit 6 (getHMAC frg)) w)) (\<lambda>y w.
       (let result = computeResult frg y;
            (x, key) = reveal frg;
            w2 = say (ResultLine x y result) (say (Reveal x key) w);
            rolled = getFace die result
        in (Done rolled, say (Roll who die result rolled) w2))))"

text \<open>The summary of a finished game: the local variables of \<^verbatim>\<open>start\<close> at its end.\<close>

record game =
  userDice_js :: dice
  computerDice_js :: dice
  compRoll_js :: "int option"
  userRoll_js :: "int option"

definition start :: "platform \<Rightarrow> dice list \<Rightarrow> world \<Rightarrow> game res \<times> world" where
  "start P diceList w =
     andThen (start_firstMove P w) (\<lambda>firstMoveResult w.
     andThen (start_selection P diceList firstMoveResult w) (\<lambda>(userDice, computerDice) w.
     andThen (start_roll P Computer computerDice w) (\<lambda>compRoll w.
     andThen (start_roll P User userDice w) (\<lambda>userRoll w.
       (Done \<lparr>userDice_js = userDice, computerDice_js = computerDice,
               compRoll_js = compRoll, userRoll_js = userRoll\<rparr>,
        say (if greater userRoll compRoll then Win User
             else if greater compRoll userRoll then Win Computer
             else Draw) w)))))"

section \<open>The game of index.ts\<close>

datatype error_ts = AtLeastThree | FacesNotIntegers | NoFace | FaceCountDiffers

text \<open>The callback of \<^verbatim>\<open>arg.split(',').map\<close> in \<^verbatim>\<open>index.ts\<close> (no \<^verbatim>\<open>trim\<close>).\<close>

fun parseValues_ts :: "string list \<Rightarrow> int list option" where
  "parseValues_ts [] = Some []"
| "parseValues_ts (num # nums) =
     (case parseInt num of
        None \<Rightarrow> None
      | Some parsed \<Rightarrow> map_option ((#) parsed) (parseValues_ts nums))"

text \<open>The loop of \<^verbatim>\<open>DiceParser.parse\<close>, with \<^verbatim>\<open>faceCount\<close> threaded (\<open>None\<close> is \<^verbatim>\<open>null\<close>).\<close>

fun parseLoop_ts :: "nat \<Rightarrow> nat option \<Rightarrow> string list \<Rightarrow> error_ts + dice list" where
  "parseLoop_ts n faceCount [] = Inr []"
| "parseLoop_ts n faceCount (arg # args) =
     (case parseValues_ts (splitComma [] arg) of
        None \<Rightarrow> Inl FacesNotIntegers
      | Some fs \<Rightarrow>
          if length fs = 0 then Inl NoFace
          else if faceCount \<noteq> None \<and> faceCount \<noteq> Some (length fs) then Inl FaceCountDiffers
          else (case parseLoop_ts (Suc n) (Some (case faceCount of None \<Rightarrow> length fs | Some c \<Rightarrow> c)) args of
                  Inl e \<Rightarrow> Inl e
                | Inr ds \<Rightarrow> Inr (\<lparr>ref = n, faces = fs\<rparr> # ds)))"

definition parse_ts :: "string list \<Rightarrow> error_ts + dice list" where
  "parse_ts args = (if length args < 3 then Inl AtLeastThree else parseLoop_ts 0 None args)"

text \<open>\<^verbatim>\<open>HMACCalculator.calculateHMAC\<close>: the message is the decimal string of the number.\<close>

definition calculateHMAC :: "platform \<Rightarrow> byte list \<Rightarrow> int \<Rightarrow> string" where
  "calculateHMAC P key num = toHex (hmacSha3 P key (map of_char (toString num)))"

text \<open>\<^verbatim>\<open>UserInterface.getNumber\<close>: one line is read; help and bad input both give \<^verbatim>\<open>null\<close>.\<close>

definition getNumber :: "int \<Rightarrow> world \<Rightarrow> int nullable res \<times> world" where
  "getNumber rng w =
     (case inputs w of
        [] \<Rightarrow> (Waiting, say (Ask rng) w)
      | line # rest \<Rightarrow>
          (let w1 = (say (Ask rng) w)\<lparr>inputs := rest\<rparr>;
               input = toUpperCase (trim line)
           in if input = ''X'' then (Exited, w1)
              else if input = ''?'' then (Done Null, w1)
              else (case parseInt input of
                      None \<Rightarrow> (Done Null, say (BadNumber rng) w1)
                    | Some num \<Rightarrow>
                        if num \<ge> 0 \<and> num < rng then (Done (Value num), w1)
                        else (Done Null, say (BadNumber rng) w1))))"

text \<open>\<^verbatim>\<open>UserInterface.selectDice\<close>.\<close>

definition selectDice_ui :: "dice list \<Rightarrow> world \<Rightarrow> int nullable res \<times> world" where
  "selectDice_ui ds w = getNumber (int (length ds)) (say (Offer User ds) w)"

text \<open>\<^verbatim>\<open>FairRandomGenerator.generate\<close> of \<^verbatim>\<open>index.ts\<close>; \<open>rng\<close> is \<^verbatim>\<open>this.range\<close>.\<close>

definition generate :: "platform \<Rightarrow> int \<Rightarrow> world \<Rightarrow> number nullable res \<times> world" where
  "generate P rng w =
     andThen (randomBytes P 32 w) (\<lambda>key w.
     andThen (randomInt P rng w) (\<lambda>computerNum w.
       (let hmac = calculateHMAC P key computerNum
        in andThen (getNumber rng (say (Commit rng hmac) w)) (\<lambda>userNum w.
             (case userNum of
                Null \<Rightarrow> (Done Null, w)
              | Value u \<Rightarrow>
                  (let result = remainder (computerNum + u) rng
                   in (Done (Value result),
                       say (ResultLine computerNum u result) (say (Reveal computerNum (toHex key)) w))))))))"

text \<open>\<^verbatim>\<open>Game.determineFirst\<close>.\<close>

definition determineFirst :: "platform \<Rightarrow> world \<Rightarrow> party nullable res \<times> world" where
  "determineFirst P w =
     andThen (generate P 2 (say (Announce ''first selector'') w)) (\<lambda>result w.
       (case result of
          Null \<Rightarrow> (Done Null, w)
        | Value r \<Rightarrow> (Done (Value (if r = Num 0 then Computer else User)), w)))"

text \<open>\<^verbatim>\<open>available.splice(i, 1)\<close>: the array without its \<open>i\<close>-th element.\<close>

definition splice1 :: "nat \<Rightarrow> 'a list \<Rightarrow> 'a list" where
  "splice1 i xs = take i xs @ drop (Suc i) xs"

text \<open>\<^verbatim>\<open>Game.selectDice\<close> of \<^verbatim>\<open>index.ts\<close>; the result is \<open>(computerDie, userDie)\<close>. The indices are
  inside the array whenever they are read: \<^verbatim>\<open>randomInt\<close> and \<^verbatim>\<open>getNumber\<close> return them so.\<close>

definition selectDice_ts ::
  "platform \<Rightarrow> dice list \<Rightarrow> party \<Rightarrow> world \<Rightarrow> (dice nullable \<times> dice nullable) res \<times> world" where
  "selectDice_ts P ds first w =
     (let available = ds
      in if first = Computer then
           andThen (randomInt P (int (length available)) (say (Offer Computer available) w)) (\<lambda>compIdx w.
             (let computerDie = available ! nat compIdx;
                  available = splice1 (nat compIdx) available
              in andThen (selectDice_ui available (say (Chose Computer computerDie) w)) (\<lambda>userIdx w.
                   (case userIdx of
                      Null \<Rightarrow> (Done (Null, Null), w)
                    | Value i \<Rightarrow>
                        (let userDie = available ! nat i
                         in (Done (Value computerDie, Value userDie), say (Chose User userDie) w))))))
         else
           andThen (selectDice_ui available w) (\<lambda>userIdx w.
             (case userIdx of
                Null \<Rightarrow> (Done (Null, Null), w)
              | Value i \<Rightarrow>
                  (let userDie = available ! nat i;
                       available = splice1 (nat i) available
                   in andThen (randomInt P (int (length available))
                                 (say (Offer Computer available) (say (Chose User userDie) w))) (\<lambda>compIdx w.
                        (let computerDie = available ! nat compIdx
                         in (Done (Value computerDie, Value userDie), say (Chose Computer computerDie) w)))))))"

text \<open>\<^verbatim>\<open>Game.roll\<close>.\<close>

definition roll :: "platform \<Rightarrow> dice \<Rightarrow> party \<Rightarrow> world \<Rightarrow> int option nullable res \<times> world" where
  "roll P die player w =
     andThen (generate P (int (numFaces die)) (say (Announce ''roll'') w)) (\<lambda>index w.
       (case index of
          Null \<Rightarrow> (Done Null, w)
        | Value i \<Rightarrow>
            (let result = getFace die i
             in (Done (Value result), say (Roll player die i result) w))))"

text \<open>A call that returns has read a line: the measure of the game loop.\<close>

lemma andThen_Done_iff:
  "andThen m k = (Done b, w') \<longleftrightarrow> (\<exists>a w1. m = (Done a, w1) \<and> k a w1 = (Done b, w'))"
  by (auto simp: andThen_def split: prod.splits res.splits)

lemma not_Null_iff: "a \<noteq> Null \<longleftrightarrow> (\<exists>x. a = Value x)"
  by (cases a) auto

lemma getNumber_inputs:
  "getNumber rng w = (Done r, w') \<Longrightarrow> length (inputs w') < length (inputs w)"
  by (auto simp: getNumber_def say_def Let_def split: list.splits if_splits option.splits)

lemma generate_inputs:
  "generate P rng w = (Done r, w') \<Longrightarrow> length (inputs w') < length (inputs w)"
  by (auto simp: generate_def andThen_Done_iff randomBytes_def randomInt_def say_def Let_def not_Null_iff
      split: if_splits nullable.splits dest!: getNumber_inputs)

lemma determineFirst_inputs:
  "determineFirst P w = (Done r, w') \<Longrightarrow> length (inputs w') < length (inputs w)"
  by (auto simp: determineFirst_def andThen_Done_iff say_def not_Null_iff split: nullable.splits dest!: generate_inputs)

lemma roll_inputs:
  "roll P die player w = (Done r, w') \<Longrightarrow> length (inputs w') < length (inputs w)"
  by (auto simp: roll_def andThen_Done_iff say_def Let_def not_Null_iff split: nullable.splits dest!: generate_inputs)

lemma selectDice_ts_inputs:
  "selectDice_ts P ds first w = (Done r, w') \<Longrightarrow> length (inputs w') < length (inputs w)"
  by (auto simp: selectDice_ts_def selectDice_ui_def andThen_Done_iff randomInt_def say_def Let_def not_Null_iff
      split: if_splits nullable.splits dest!: getNumber_inputs)

lemmas consumed =
  determineFirst_inputs [OF sym] selectDice_ts_inputs [OF sym] roll_inputs [OF sym]

text \<open>
  \<^verbatim>\<open>Game.play\<close>: every \<^verbatim>\<open>continue\<close> renders the table and runs the loop body again. Each turn
  of the loop reads at least one line, which is why the recursion ends.
\<close>

function play :: "platform \<Rightarrow> dice list \<Rightarrow> world \<Rightarrow> unit res \<times> world" where
  "play P ds w =
     (case determineFirst P w of
        (Exited, w1) \<Rightarrow> (Exited, w1)
      | (Waiting, w1) \<Rightarrow> (Waiting, w1)
      | (Threw, w1) \<Rightarrow> (Threw, w1)
      | (Done Null, w1) \<Rightarrow> play P ds (say (ShowTable ds) w1)
      | (Done (Value first), w1) \<Rightarrow>
          (case selectDice_ts P ds first w1 of
             (Exited, w2) \<Rightarrow> (Exited, w2)
           | (Waiting, w2) \<Rightarrow> (Waiting, w2)
           | (Threw, w2) \<Rightarrow> (Threw, w2)
           | (Done (Null, userDie), w2) \<Rightarrow> play P ds (say (ShowTable ds) w2)
           | (Done (Value computerDie, Null), w2) \<Rightarrow> play P ds (say (ShowTable ds) w2)
           | (Done (Value computerDie, Value userDie), w2) \<Rightarrow>
               (case roll P computerDie Computer w2 of
                  (Exited, w3) \<Rightarrow> (Exited, w3)
                | (Waiting, w3) \<Rightarrow> (Waiting, w3)
                | (Threw, w3) \<Rightarrow> (Threw, w3)
                | (Done Null, w3) \<Rightarrow> play P ds (say (ShowTable ds) w3)
                | (Done (Value computerRoll), w3) \<Rightarrow>
                    (case roll P userDie User w3 of
                       (Exited, w4) \<Rightarrow> (Exited, w4)
                     | (Waiting, w4) \<Rightarrow> (Waiting, w4)
                     | (Threw, w4) \<Rightarrow> (Threw, w4)
                     | (Done Null, w4) \<Rightarrow> play P ds (say (ShowTable ds) w4)
                     | (Done (Value userRoll), w4) \<Rightarrow>
                         (Done (),
                          say (if greater userRoll computerRoll then Win User
                               else if greater computerRoll userRoll then Win Computer
                               else Draw) w4)))))"
  by pat_completeness auto
termination
proof (relation "measure (\<lambda>(P, ds, w). length (inputs w))")
  show "wf (measure (\<lambda>(P, ds, w). length (inputs w)))" by simp
qed (auto simp: say_def dest!: consumed)


declare play.simps [simp del]
declare getUserNumber.simps [simp del]
declare selectDice_js.simps [simp del]
declare decimal.simps [simp del]

section \<open>Concrete dice and a concrete platform\<close>

text \<open>
  The dice of the specification's scenario, and a platform on which runs can be computed:
  its tape holds \<open>0, 1, 2, ...\<close> and its keyed hash is a stand-in that returns the message
  followed by the first two key bytes. Theorems are stated for every platform; these
  constants only serve to evaluate runs.
\<close>

definition dieA :: dice where
  "dieA = \<lparr>ref = 0, faces = [2, 2, 4, 4, 9, 9]\<rparr>"

definition dieB :: dice where
  "dieB = \<lparr>ref = 1, faces = [1, 1, 6, 6, 8, 8]\<rparr>"

definition dieC :: dice where
  "dieC = \<lparr>ref = 2, faces = [3, 3, 5, 5, 7, 7]\<rparr>"

definition samplePlatform :: platform where
  "samplePlatform = \<lparr>hmacSha3 = (\<lambda>key message. message @ take 2 key), entropy = (\<lambda>i. i)\<rparr>"

definition zeroPlatform :: platform where
  "zeroPlatform = \<lparr>hmacSha3 = (\<lambda>key message. message @ take 2 key), entropy = (\<lambda>i. 0)\<rparr>"

definition fresh :: "string list \<Rightarrow> world" where
  "fresh lines = \<lparr>inputs = lines, drawn = 0, out = []\<rparr>"

section \<open>Reading runs\<close>

text \<open>
  The key and the secret a session draws when it starts with \<open>n\<close> cells of the tape
  consumed: 32 cells make the key, the next one the secret.
\<close>

definition keyAt :: "platform \<Rightarrow> nat \<Rightarrow> byte list" where
  "keyAt P n = map (\<lambda>j. of_nat (entropy P (n + j))) [0..<32]"

definition secretAt :: "platform \<Rightarrow> int \<Rightarrow> nat \<Rightarrow> int" where
  "secretAt P rng n = int (entropy P (n + 32)) mod rng"

text \<open>Dialogue: the events that publish no digest, reveal nothing, and offer, choose or roll no die.\<close>

fun quiet :: "event \<Rightarrow> bool" where
  "quiet (Commit r h) = False"
| "quiet (Reveal x k) = False"
| "quiet (FirstMover p) = False"
| "quiet (Offer p ds) = False"
| "quiet (Chose p d) = False"
| "quiet (Roll p d i v) = False"
| "quiet e = True"

text \<open>The digests a run has published, in order, each with the range of its session.\<close>

fun commits :: "event list \<Rightarrow> (int \<times> string) list" where
  "commits [] = []"
| "commits (Commit r h # es) = (r, h) # commits es"
| "commits (e # es) = commits es"

text \<open>A roll is in bounds when \<^verbatim>\<open>getFace\<close> was given an index inside the die and returned that face.\<close>

fun inBounds :: "event \<Rightarrow> bool" where
  "inBounds (Roll p d (Num n) v) = (0 \<le> n \<and> n < int (length (faces d)) \<and> v = Some (faces d ! nat n))"
| "inBounds (Roll p d NaN v) = False"
| "inBounds e = True"

text \<open>
  What a call that asks the user leaves behind: the tape untouched, the prompt printed
  first, and after it only dialogue (\<open>asked\<close>), or the pool shown first and again at
  each new prompt (\<open>offered\<close>); such a call never throws.
\<close>

definition asked :: "int \<Rightarrow> world \<Rightarrow> 'a res \<Rightarrow> world \<Rightarrow> bool" where
  "asked rng w r w' \<longleftrightarrow>
     drawn w' = drawn w \<and> (\<exists>evs. out w' = out w @ Ask rng # evs \<and> list_all quiet evs) \<and> r \<noteq> Threw"

definition offered :: "dice list \<Rightarrow> world \<Rightarrow> 'a res \<Rightarrow> world \<Rightarrow> bool" where
  "offered av w r w' \<longleftrightarrow>
     drawn w' = drawn w \<and>
     (\<exists>evs. out w' = out w @ Offer User av # evs \<and> list_all (\<lambda>e. quiet e \<or> e = Offer User av) evs) \<and>
     r \<noteq> Threw"

text \<open>
  A pool is the list \<open>ds\<close> reduced by the die \<open>d\<close>: \<open>d\<close> was in \<open>ds\<close>, no die of the pool is
  the object \<open>d\<close>, the pool holds dice of \<open>ds\<close> only, and it is one shorter.
\<close>

definition reducedBy :: "dice list \<Rightarrow> dice \<Rightarrow> dice list \<Rightarrow> bool" where
  "reducedBy ds d pool \<longleftrightarrow>
     d \<in> set ds \<and> (\<forall>e\<in>set pool. ref e \<noteq> ref d) \<and> set pool \<subseteq> set ds \<and> length pool + 1 = length ds"

section \<open>The loops count the cross product\<close>

lemma inner_loop_count:
  "foldl (\<lambda>w b. if (a::int) > b then w + 1 else w) w fb = w + length (filter (\<lambda>b. a > b) fb)"
  by (induction fb arbitrary: w) auto

lemma filter_product_Cons:
  "length (filter (\<lambda>(a, b). P a b) (List.product (a # fa) fb)) =
     length (filter (P a) fb) + length (filter (\<lambda>(a, b). P a b) (List.product fa fb))"
  by (simp add: filter_map o_def)

lemma outer_loop_sum:
  "foldl (\<lambda>w a. w + length (filter (\<lambda>b. (a::int) > b) fb)) w fa =
     w + length (filter (\<lambda>(a, b). a > b) (List.product fa fb))"
proof (induction fa arbitrary: w)
  case Nil
  show ?case by simp
next
  case (Cons a fa)
  show ?case
    by (simp only: foldl_Cons Cons.IH filter_product_Cons [of "\<lambda>a b. a > b"] add.assoc)
qed

lemma outer_loop_count:
  "foldl (\<lambda>w a. foldl (\<lambda>w b. if (a::int) > b then w + 1 else w) w fb) w fa =
     w + length (filter (\<lambda>(a, b). a > b) (List.product fa fb))"
  by (simp only: inner_loop_count outer_loop_sum)

lemma countWins_spec: "countWins fa fb = spec_winPairs fa fb"
  by (simp add: countWins_def spec_winPairs_def outer_loop_count)

lemma three_way:
  "length (filter (\<lambda>b. (a::int) > b) fb) + length (filter (\<lambda>b. b > a) fb)
     + length (filter (\<lambda>b. a = b) fb) = length fb"
  by (induction fb) auto

lemma filter_product_swap:
  "length (filter (\<lambda>(b, a). P a b) (List.product fb fa)) =
   length (filter (\<lambda>(a, b). P a b) (List.product fa fb))"
proof (induction fa)
  case Nil
  show ?case by (induction fb) auto
next
  case (Cons a fa)
  have "length (filter (\<lambda>(b, a). P a b) (List.product fb (a # fa))) =
        length (filter (P a) fb) + length (filter (\<lambda>(b, a). P a b) (List.product fb fa))"
    by (induction fb) (auto simp: filter_map o_def)
  with Cons show ?case by (simp add: filter_map o_def)
qed

lemma pairs_partition:
  "spec_winPairs fa fb + spec_winPairs fb fa + spec_tiePairs fa fb = length fa * length fb"
proof -
  have sw: "spec_winPairs fb fa = length (filter (\<lambda>(a, b). b > a) (List.product fa fb))"
    unfolding spec_winPairs_def using filter_product_swap [of "\<lambda>a b. b > a" fb fa] by simp
  have "length (filter (\<lambda>(a, b). a > b) (List.product fa fb))
      + length (filter (\<lambda>(a, b). b > a) (List.product fa fb))
      + length (filter (\<lambda>(a, b). a = b) (List.product fa fb)) = length fa * length fb"
  proof (induction fa)
    case Nil
    show ?case by simp
  next
    case (Cons a fa)
    show ?case
      using Cons three_way [of a fb]
      by (simp only: filter_product_Cons [of "\<lambda>a b. a > b"] filter_product_Cons [of "\<lambda>a b. b > a"]
            filter_product_Cons [of "\<lambda>a b. a = b"] list.size mult_Suc) simp
  qed
  with sw show ?thesis by (simp add: spec_winPairs_def spec_tiePairs_def)
qed

lemma fractions_sum:
  assumes "0 < n"
  shows "(of_nat (spec_winPairs fa fb) :: rat) / of_nat n + of_nat (spec_winPairs fb fa) / of_nat n
           + of_nat (spec_tiePairs fa fb) / of_nat n = of_nat (length fa * length fb) / of_nat n"
proof -
  have "(of_nat (spec_winPairs fa fb) :: rat) + of_nat (spec_winPairs fb fa) + of_nat (spec_tiePairs fa fb)
          = of_nat (length fa * length fb)"
    unfolding of_nat_add [symmetric] by (simp only: pairs_partition)
  then show ?thesis by (simp only: add_divide_distrib [symmetric])
qed

section \<open>Rounding to binary64\<close>

text \<open>
  What the proofs below need of the rounding: the exponent brackets its argument, the
  rounded significand is within one half of the exact one and never crosses an integer,
  hence a rounded value never crosses a power of two and lies within half a unit in the
  last place of the exact value.
\<close>

lemma floor_facts: "of_int \<lfloor>m::rat\<rfloor> \<le> m \<and> m < of_int \<lfloor>m\<rfloor> + 1"
  by linarith

lemma exponent_bounds:
  assumes "0 < x"
  shows "2 powi exponent x \<le> x \<and> x < 2 powi (exponent x + 1)"
proof (cases "1 \<le> x")
  case True
  define n where "n = \<lfloor>x\<rfloor>"
  have n: "0 < n" "of_int n \<le> x" "x < of_int n + 1"
    using True floor_facts [of x] by (simp_all add: n_def)
  from bitlen_bounds [OF n(1)] have b: "2 ^ nat (bitlen n - 1) \<le> n" "n < 2 ^ nat (bitlen n)"
    by simp_all
  have pos: "1 \<le> bitlen n"
    using n(1) bitlen_eq_zero_iff [of n] bitlen_nonneg [of n] by linarith
  have e: "exponent x = bitlen n - 1"
    using True by (simp add: exponent_def n_def)
  have "(2::rat) powi (bitlen n - 1) = of_int (2 ^ nat (bitlen n - 1))"
    using pos by (simp add: power_int_nonneg_exp)
  also have "\<dots> \<le> of_int n"
    using b(1) by (simp only: of_int_le_iff)
  finally have lo: "2 powi (bitlen n - 1) \<le> x"
    using n(2) by linarith
  have "x < of_int (n + 1)"
    using n(3) by simp
  also have "\<dots> \<le> of_int (2 ^ nat (bitlen n))"
    using b(2) by (simp only: of_int_le_iff)
  also have "\<dots> = (2::rat) powi (bitlen n)"
    using pos by (simp add: power_int_nonneg_exp)
  finally have "x < 2 powi (bitlen n)" .
  with lo e show ?thesis by simp
next
  case False
  define y where "y = 1 / x"
  define c where "c = \<lceil>y\<rceil>"
  have y: "1 < y" "x = 1 / y"
    using False assms by (simp_all add: y_def)
  have c: "y \<le> of_int c" "of_int c - 1 < y"
    unfolding c_def by linarith+
  have "(1::rat) < of_int c"
    using y(1) c(1) by linarith
  then have c1: "0 < c - 1"
    by simp
  define b where "b = bitlen (c - 1)"
  from bitlen_bounds [OF c1] have bb: "2 ^ nat (b - 1) \<le> c - 1" "c - 1 < 2 ^ nat b"
    by (simp_all add: b_def)
  have pos: "1 \<le> b"
    unfolding b_def using c1 bitlen_eq_zero_iff [of "c - 1"] bitlen_nonneg [of "c - 1"] by linarith
  have e: "exponent x = - b"
    using False by (simp add: exponent_def b_def c_def y_def)
  have "y \<le> of_int (2 ^ nat b)"
  proof -
    have "c \<le> 2 ^ nat b" using bb(2) by linarith
    then have "(of_int c :: rat) \<le> of_int (2 ^ nat b)" by (simp only: of_int_le_iff)
    with c(1) show ?thesis by linarith
  qed
  then have up: "y \<le> 2 ^ nat b" by simp
  have "(of_int (2 ^ nat (b - 1)) :: rat) \<le> of_int (c - 1)"
    using bb(1) by (simp only: of_int_le_iff)
  with c(2) have lo: "2 ^ nat (b - 1) < y" by simp
  have p1: "(2::rat) powi (- b) = 1 / 2 ^ nat b"
    using pos by (simp add: power_int_def field_simps)
  have p2: "(2::rat) powi (- b + 1) = 1 / 2 ^ nat (b - 1)"
  proof -
    have "- b + 1 \<le> 0" using pos by simp
    moreover have "nat (- (- b + 1)) = nat (b - 1)" by simp
    ultimately show ?thesis
      by (cases "- b + 1 = 0") (simp_all add: power_int_def field_simps)
  qed
  have ypos: "0 < y" using y(1) by simp
  have "1 / 2 ^ nat b \<le> 1 / y"
    using up ypos by (simp add: field_simps)
  moreover have "1 / y < 1 / 2 ^ nat (b - 1)"
    using lo ypos by (simp add: field_simps)
  ultimately show ?thesis
    using e p1 p2 y(2) by simp
qed

lemma exponent_less: "0 < x \<Longrightarrow> x < 2 powi k \<Longrightarrow> exponent x < k"
proof (rule ccontr)
  assume x: "0 < x" "x < 2 powi k" and "\<not> exponent x < k"
  then have "(2::rat) powi k \<le> 2 powi exponent x"
    by (intro power_int_increasing) simp_all
  with exponent_bounds [OF x(1)] x(2) show False by linarith
qed

lemma exponent_le: "0 < x \<Longrightarrow> x \<le> 2 powi k \<Longrightarrow> exponent x \<le> k"
  using exponent_less [of x "k + 1"] power_int_strict_increasing [of k "k + 1" "2::rat"]
  by fastforce

lemma roundHalfEven_error: "\<bar>of_int (roundHalfEven m) - m\<bar> \<le> 1 / 2"
  using floor_facts [of m] by (auto simp: roundHalfEven_def Let_def)

lemma roundHalfEven_le: "m \<le> of_int k \<Longrightarrow> roundHalfEven m \<le> k"
proof -
  assume a: "m \<le> of_int k"
  have f: "\<lfloor>m\<rfloor> \<le> k" using a by (simp add: floor_le_iff) 
  show ?thesis
  proof (cases "\<lfloor>m\<rfloor> = k")
    case True
    with a floor_facts [of m] have "m = of_int \<lfloor>m\<rfloor>" by simp
    then have "m - of_int \<lfloor>m\<rfloor> = 0" by simp
    then show ?thesis using True by (simp add: roundHalfEven_def Let_def)
  next
    case False
    with f have "\<lfloor>m\<rfloor> + 1 \<le> k" by simp
    then show ?thesis by (auto simp: roundHalfEven_def Let_def)
  qed
qed

lemma roundHalfEven_ge: "of_int k \<le> m \<Longrightarrow> k \<le> roundHalfEven m"
proof -
  assume "of_int k \<le> m"
  then have "k \<le> \<lfloor>m\<rfloor>" by (simp add: le_floor_iff)
  then show ?thesis by (auto simp: roundHalfEven_def Let_def)
qed

lemma roundHalfEven_even:
  assumes "of_int k \<le> m" and "m \<le> of_int k + 1 / 2" and "even k"
  shows "roundHalfEven m = k"
proof -
  have "\<lfloor>m\<rfloor> = k" using assms(1,2) by (simp add: floor_eq_iff)
  with assms show ?thesis by (auto simp: roundHalfEven_def Let_def)
qed

lemma exponent_ge: "0 < x \<Longrightarrow> 2 powi k \<le> x \<Longrightarrow> k \<le> exponent x"
proof (rule ccontr)
  assume x: "0 < x" "2 powi k \<le> x" and "\<not> k \<le> exponent x"
  then have "(2::rat) powi (exponent x + 1) \<le> 2 powi k"
    by (intro power_int_increasing) simp_all
  with exponent_bounds [OF x(1)] x(2) show False by linarith
qed

lemma double_pos: "0 < x \<Longrightarrow> double x = of_int (roundHalfEven (x / ulp x)) * ulp x"
  by (simp add: double_def)

lemma ulp_pos: "0 < ulp x"
  by (simp add: ulp_def zero_less_power_int)

lemma double_nonneg: "0 \<le> x \<Longrightarrow> 0 \<le> double x"
proof (cases "x = 0")
  case True
  then show ?thesis by (simp add: double_def)
next
  case False
  assume "0 \<le> x"
  with False have x: "0 < x" by simp
  have "of_int 0 \<le> x / ulp x"
    using x ulp_pos [of x] by simp
  from roundHalfEven_ge [OF this] ulp_pos [of x] show ?thesis
    by (simp add: double_pos [OF x])
qed

lemma double_le_pow2:
  assumes x: "0 < x" and le: "x \<le> 2 powi k" and k: "- 1022 \<le> k"
  shows "double x \<le> 2 powi k"
proof -
  define e where "e = max (exponent x) (- 1022)"
  have e: "e \<le> k"
    using exponent_le [OF x le] k by (simp add: e_def)
  have u: "ulp x = 2 powi (e - 52)"
    by (simp add: ulp_def e_def)
  have split: "(2::rat) powi k = 2 powi (k - e + 52) * 2 powi (e - 52)"
    by (simp add: power_int_add [symmetric])
  have int: "(2::rat) powi (k - e + 52) = of_int (2 ^ nat (k - e + 52))"
    using e by (simp add: power_int_nonneg_exp)
  have "x / ulp x \<le> 2 powi (k - e + 52)"
    using le ulp_pos [of x] unfolding u split by (simp add: field_simps)
  then have "roundHalfEven (x / ulp x) \<le> 2 ^ nat (k - e + 52)"
    unfolding int by (rule roundHalfEven_le)
  then have "(of_int (roundHalfEven (x / ulp x)) :: rat) \<le> of_int (2 ^ nat (k - e + 52))"
    by (simp only: of_int_le_iff)
  then have "of_int (roundHalfEven (x / ulp x)) * ulp x \<le> 2 powi (k - e + 52) * ulp x"
    unfolding int using ulp_pos [of x] by (simp only: mult_le_cancel_right_pos)
  then show ?thesis
    unfolding double_pos [OF x] split u .
qed

lemma double_error:
  assumes x: "0 < x" and less: "x < 2 powi k" and k: "- 1021 \<le> k"
  shows "\<bar>double x - x\<bar> \<le> 2 powi (k - 54)"
proof -
  define e where "e = max (exponent x) (- 1022)"
  have e: "e \<le> k - 1"
    using exponent_less [OF x less] k by (simp add: e_def)
  have u: "ulp x = 2 powi (e - 52)"
    by (simp add: ulp_def e_def)
  have "double x - x = (of_int (roundHalfEven (x / ulp x)) - x / ulp x) * ulp x"
    using ulp_pos [of x] by (simp add: double_pos [OF x] left_diff_distrib)
  then have "\<bar>double x - x\<bar> = \<bar>of_int (roundHalfEven (x / ulp x)) - x / ulp x\<bar> * ulp x"
    using ulp_pos [of x] by (simp add: abs_mult)
  also have "\<dots> \<le> 1 / 2 * ulp x"
    using roundHalfEven_error [of "x / ulp x"] ulp_pos [of x] by (simp only: mult_le_cancel_right_pos)
  also have "\<dots> = 2 powi (e - 53)"
    unfolding u using power_int_add [of "2::rat" "e - 53" 1] by simp
  also have "\<dots> \<le> 2 powi (k - 54)"
    using e by (intro power_int_increasing) simp_all
  finally show ?thesis .
qed

lemma double_error_upper:
  assumes "0 < x" and "x < 2 powi k" and "- 1021 \<le> k"
  shows "double x \<le> x + 2 powi (k - 54)"
  using double_error [OF assms] by linarith

lemma double_near_one:
  assumes "1 \<le> s" and "s \<le> 1 + 1 / 2 ^ 53"
  shows "double s = 1"
proof -
  have s: "0 < s" using assms(1) by simp
  have "exponent s < 1"
    using assms(2) by (intro exponent_less [OF s]) simp
  moreover have "0 \<le> exponent s"
    using assms(1) by (intro exponent_ge [OF s]) simp
  ultimately have e: "exponent s = 0" by simp
  have u: "ulp s = 1 / 2 ^ 52"
    by (simp add: ulp_def e power_int_minus field_simps)
  have "roundHalfEven (s / ulp s) = 2 ^ 52"
    unfolding u using assms by (intro roundHalfEven_even) simp_all
  then show ?thesis
    by (simp add: double_pos [OF s] u)
qed

lemma double_sum_le_one:
  assumes a: "0 \<le> a" and b: "0 \<le> b" and ab: "a + b \<le> 1"
  shows "double (double a + double b) \<le> 1"
proof -
  have half: "double x \<le> 1 / 2" if "0 \<le> x" "x \<le> 1 / 2" for x
  proof (cases "x = 0")
    case True
    then show ?thesis by (simp add: double_def)
  next
    case False
    with that have "0 < x" "x \<le> 2 powi (- 1)" by (simp_all add: power_int_minus)
    from double_le_pow2 [OF this] show ?thesis by (simp add: power_int_minus)
  qed
  have small: "double x \<le> x + 1 / 2 ^ 55" if "0 \<le> x" "x < 1 / 2" for x
  proof (cases "x = 0")
    case True
    then show ?thesis by (simp add: double_def)
  next
    case False
    with that have "0 < x" "x < 2 powi (- 1)" by (simp_all add: power_int_minus)
    from double_error_upper [OF this] have "double x \<le> x + 2 powi (- 55)" by simp
    moreover have "(2::rat) powi (- 55) = 1 / 2 ^ 55" by (simp add: power_int_minus field_simps)
    ultimately show ?thesis by simp
  qed
  have big: "double x \<le> x + 1 / 2 ^ 54" if "0 < x" "x < 1" for x
  proof -
    from that have "0 < x" "x < 2 powi 0" by simp_all
    from double_error_upper [OF this] have "double x \<le> x + 2 powi (- 54)" by simp
    moreover have "(2::rat) powi (- 54) = 1 / 2 ^ 54" by (simp add: power_int_minus field_simps)
    ultimately show ?thesis by simp
  qed
  have one: "double 1 = 1"
    by (rule double_near_one) simp_all
  have zero: "double 0 = 0"
    by (simp add: double_def)
  have sum: "double a + double b \<le> 1 + 1 / 2 ^ 53"
  proof -
    consider (both) "a \<le> 1 / 2" "b \<le> 1 / 2" | (a) "1 / 2 < a" | (b) "1 / 2 < b"
      by linarith
    then show ?thesis
    proof cases
      case both
      from half [OF a both(1)] half [OF b both(2)] show ?thesis by simp
    next
      case a
      then have b2: "b < 1 / 2" using ab by linarith
      show ?thesis
      proof (cases "a = 1")
        case True
        with ab b have "b = 0" by simp
        with True one zero show ?thesis by simp
      next
        case False
        with ab b have "a < 1" by linarith
        with a big [of a] small [OF b b2] ab show ?thesis by simp
      qed
    next
      case b
      then have a2: "a < 1 / 2" using ab by linarith
      show ?thesis
      proof (cases "b = 1")
        case True
        with ab a have "a = 0" by simp
        with True one zero show ?thesis by simp
      next
        case False
        with ab a have "b < 1" by linarith
        with b big [of b] small [OF a a2] ab show ?thesis by simp
      qed
    qed
  qed
  define s where "s = double a + double b"
  have s0: "0 \<le> s"
    using double_nonneg [OF a] double_nonneg [OF b] by (simp add: s_def)
  have "double s \<le> 1"
  proof (cases "s = 0")
    case True
    then show ?thesis by (simp add: double_def)
  next
    case False
    with s0 have sp: "0 < s" by simp
    show ?thesis
    proof (cases "s \<le> 1")
      case True
      with sp have "0 < s" "s \<le> 2 powi 0" by simp_all
      from double_le_pow2 [OF this] show ?thesis by simp
    next
      case False
      then have "1 \<le> s" by simp
      from double_near_one [OF this] sum show ?thesis by (simp add: s_def)
    qed
  qed
  then show ?thesis by (simp add: s_def)
qed

lemma double_close:
  assumes "0 \<le> x" and "x \<le> 1"
  shows "\<bar>double x - x\<bar> \<le> 1 / 2 ^ 54"
proof -
  consider "x = 0" | "x = 1" | "0 < x" "x < 1" using assms by linarith
  then show ?thesis
  proof cases
    case 1
    then show ?thesis by (simp add: double_def)
  next
    case 2
    then show ?thesis using double_near_one [of 1] by simp
  next
    case 3
    then have "0 < x" "x < 2 powi 0" by simp_all
    from double_error [OF this] have "\<bar>double x - x\<bar> \<le> 2 powi (- 54)" by simp
    moreover have "(2::rat) powi (- 54) = 1 / 2 ^ 54" by (simp add: power_int_minus field_simps)
    ultimately show ?thesis by simp
  qed
qed

section \<open>C2: the win probability as a count over the cross product\<close>

lemma spec_winPairs_le: "spec_winPairs fa fb \<le> length fa * length fb"
  using pairs_partition [of fa fb] by linarith

lemma fraction_unit:
  assumes "w \<le> t"
  shows "0 \<le> (of_nat w :: rat) / of_nat t \<and> (of_nat w :: rat) / of_nat t \<le> 1"
proof (cases "t = 0")
  case True
  then show ?thesis by simp
next
  case False
  then have "(0::rat) < of_nat t" by simp
  moreover have "(of_nat w :: rat) \<le> of_nat t"
    using assms by (simp only: of_nat_le_iff)
  ultimately show ?thesis by (simp add: divide_le_eq_1_pos)
qed

lemma spec_winProbability_unit: "0 \<le> spec_winProbability A B \<and> spec_winProbability A B \<le> 1"
  unfolding spec_winProbability_def by (rule fraction_unit [OF spec_winPairs_le])

text \<open>
  C2, as stated, fails for \<^verbatim>\<open>game.js\<close>: its divisor is the literal 36, so for dice that
  do not both have six faces the result is not the count over the size of the cross
  product. With faces \<open>[2, 1]\<close> against \<open>[1]\<close> one pair of two wins, and the function
  returns the number \<^verbatim>\<open>1 / 36\<close>, not \<^verbatim>\<open>1 / 2\<close>.
\<close>

theorem C2_counterexample:
  "calculateWinProbability \<lparr>ref = 0, faces = [2, 1]\<rparr> \<lparr>ref = 1, faces = [1]\<rparr> = double (1 / 36) \<and>
   double (1 / 36) = 2001599834386887 / 72057594037927936 \<and>
   spec_winProbability \<lparr>ref = 0, faces = [2, 1]\<rparr> \<lparr>ref = 1, faces = [1]\<rparr> = 1 / 2 \<and>
   double (1 / 2) = 1 / 2"
  by code_simp

text \<open>
  C2, amended: \<^verbatim>\<open>calculate\<close> of \<^verbatim>\<open>index.ts\<close> is the number of ordered pairs \<open>(fa, fb)\<close> of the
  cross product with \<open>fa > fb\<close>, over \<open>|facesA| * |facesB|\<close>, for dice of equal or differing
  face counts with at least one face each; \<^verbatim>\<open>calculateWinProbability\<close> of \<^verbatim>\<open>game.js\<close> is
  that count over 36, which is the same value for the six-faced dice its parser accepts.
  The quotient is the one of the program's arithmetic: the binary64 number nearest to the
  exact fraction, hence within \<open>2 ^ - 54\<close> of it.
\<close>

theorem C2_win_probability:
  "(0 < numFaces A \<and> 0 < numFaces B \<longrightarrow>
      calculate A B = double (spec_winProbability A B) \<and>
      \<bar>calculate A B - spec_winProbability A B\<bar> \<le> 1 / 2 ^ 54) \<and>
   calculateWinProbability A B = double (of_nat (spec_winPairs (faces A) (faces B)) / 36) \<and>
   (numFaces A = 6 \<and> numFaces B = 6 \<longrightarrow>
      calculateWinProbability A B = double (spec_winProbability A B) \<and>
      \<bar>calculateWinProbability A B - spec_winProbability A B\<bar> \<le> 1 / 2 ^ 54)"
proof -
  have close: "\<bar>double (spec_winProbability A B) - spec_winProbability A B\<bar> \<le> 1 / 2 ^ 54"
    using spec_winProbability_unit [of A B] by (intro double_close) simp_all
  have ts: "calculate A B = double (spec_winProbability A B)" if "0 < numFaces A" "0 < numFaces B"
    using that by (simp add: calculate_def spec_winProbability_def numFaces_def countWins_spec Let_def)
  have js: "calculateWinProbability A B = double (of_nat (spec_winPairs (faces A) (faces B)) / 36)"
    by (simp add: calculateWinProbability_def countWins_spec)
  have six: "calculateWinProbability A B = double (spec_winProbability A B)"
    if "numFaces A = 6" "numFaces B = 6"
    using that by (simp add: calculateWinProbability_def spec_winProbability_def numFaces_def countWins_spec)
  from close ts js six show ?thesis by simp
qed

theorem C2_win_probability_witness:
  "0 < numFaces dieA \<and> 0 < numFaces dieB \<and> numFaces dieA = 6 \<and> numFaces dieB = 6 \<and>
   calculate dieA dieB = double (spec_winProbability dieA dieB) \<and>
   \<bar>calculate dieA dieB - spec_winProbability dieA dieB\<bar> \<le> 1 / 2 ^ 54 \<and>
   calculateWinProbability dieA dieB = double (spec_winProbability dieA dieB)"
proof -
  have n: "0 < numFaces dieA" "0 < numFaces dieB" "numFaces dieA = 6" "numFaces dieB = 6"
    by (simp_all add: numFaces_def dieA_def dieB_def)
  note inst = C2_win_probability [of dieA dieB]
  from n inst [THEN conjunct1, THEN mp, OF conjI, OF n(1,2), THEN conjunct1]
    inst [THEN conjunct1, THEN mp, OF conjI, OF n(1,2), THEN conjunct2]
    inst [THEN conjunct2, THEN conjunct2, THEN mp, OF conjI, OF n(3,4), THEN conjunct1]
  show ?thesis by (intro conjI)
qed

section \<open>C7: wins, losses and ties add up\<close>

lemma two_quotients:
  assumes "w + v \<le> t"
  shows "double (double (of_nat w / of_nat t) + double (of_nat v / of_nat t)) \<le> 1"
proof (rule double_sum_le_one)
  show "0 \<le> (of_nat w :: rat) / of_nat t" "0 \<le> (of_nat v :: rat) / of_nat t"
    by simp_all
  have "(of_nat w :: rat) / of_nat t + of_nat v / of_nat t = of_nat (w + v) / of_nat t"
    by (simp add: add_divide_distrib)
  also have "\<dots> \<le> 1"
    using fraction_unit [OF assms] by simp
  finally show "(of_nat w :: rat) / of_nat t + of_nat v / of_nat t \<le> 1" .
qed

lemma three_quotients:
  assumes "w + v + u = t" and "0 < t"
  shows "\<bar>double (of_nat w / of_nat t) + double (of_nat v / of_nat t) + double (of_nat u / of_nat t) - 1\<bar>
           \<le> 3 / 2 ^ 54"
proof -
  let ?a = "(of_nat w :: rat) / of_nat t" and ?b = "(of_nat v :: rat) / of_nat t"
    and ?c = "(of_nat u :: rat) / of_nat t"
  have "?a + ?b + ?c = of_nat (w + v + u) / of_nat t"
    by (simp add: add_divide_distrib)
  with assms have one: "?a + ?b + ?c = 1" by simp
  have a: "\<bar>double ?a - ?a\<bar> \<le> 1 / 2 ^ 54"
    using fraction_unit [of w t] assms(1) by (intro double_close) simp_all
  have b: "\<bar>double ?b - ?b\<bar> \<le> 1 / 2 ^ 54"
    using fraction_unit [of v t] assms(1) by (intro double_close) simp_all
  have c: "\<bar>double ?c - ?c\<bar> \<le> 1 / 2 ^ 54"
    using fraction_unit [of u t] assms(1) by (intro double_close) simp_all
  have "double ?a + double ?b + double ?c - 1 = (double ?a - ?a) + (double ?b - ?b) + (double ?c - ?c)"
    using one by simp
  then have "\<bar>double ?a + double ?b + double ?c - 1\<bar>
               \<le> \<bar>double ?a - ?a\<bar> + \<bar>double ?b - ?b\<bar> + \<bar>double ?c - ?c\<bar>"
    by linarith
  with a b c show ?thesis by linarith
qed

text \<open>
  C7, as stated, fails twice. The numbers the functions return are rounded, and the sum
  of rounded numbers need not be 1: for the six-faced dice \<open>1,1,1,1,1,3\<close> and
  \<open>1,2,2,2,2,3\<close>, which both parsers accept, the pair counts are 5, 25 and 6 of 36, and
  the two probabilities and the tie fraction add up to \<open>1 - 2 ^ - 53\<close> in the program's
  arithmetic (to \<open>1 - 2 ^ - 55\<close> when the three numbers are added exactly), in both
  implementations. And in \<^verbatim>\<open>game.js\<close>, for dice whose common face count is not six, the sum
  is far from 1: with the one-faced dice \<open>[1]\<close> and \<open>[0]\<close> it is \<^verbatim>\<open>1 / 36\<close>.
\<close>

theorem C7_counterexample:
  "parseDiceConfigs [''1,1,1,1,1,3'', ''1,2,2,2,2,3'', ''2,2,2,2,2,2''] =
     Inr [\<lparr>ref = 0, faces = [1, 1, 1, 1, 1, 3]\<rparr>, \<lparr>ref = 1, faces = [1, 2, 2, 2, 2, 3]\<rparr>,
          \<lparr>ref = 2, faces = [2, 2, 2, 2, 2, 2]\<rparr>] \<and>
   parse_ts [''1,1,1,1,1,3'', ''1,2,2,2,2,3'', ''2,2,2,2,2,2''] =
     Inr [\<lparr>ref = 0, faces = [1, 1, 1, 1, 1, 3]\<rparr>, \<lparr>ref = 1, faces = [1, 2, 2, 2, 2, 3]\<rparr>,
          \<lparr>ref = 2, faces = [2, 2, 2, 2, 2, 2]\<rparr>] \<and>
   numFaces \<lparr>ref = 0, faces = [1, 1, 1, 1, 1, 3]\<rparr> = numFaces \<lparr>ref = 1, faces = [1, 2, 2, 2, 2, 3]\<rparr> \<and>
   calculate \<lparr>ref = 0, faces = [1, 1, 1, 1, 1, 3]\<rparr> \<lparr>ref = 1, faces = [1, 2, 2, 2, 2, 3]\<rparr>
     = 2501999792983609 / 18014398509481984 \<and>
   calculate \<lparr>ref = 1, faces = [1, 2, 2, 2, 2, 3]\<rparr> \<lparr>ref = 0, faces = [1, 1, 1, 1, 1, 3]\<rparr>
     = 3127499741229511 / 4503599627370496 \<and>
   calculateWinProbability \<lparr>ref = 0, faces = [1, 1, 1, 1, 1, 3]\<rparr> \<lparr>ref = 1, faces = [1, 2, 2, 2, 2, 3]\<rparr>
     = 2501999792983609 / 18014398509481984 \<and>
   calculateWinProbability \<lparr>ref = 1, faces = [1, 2, 2, 2, 2, 3]\<rparr> \<lparr>ref = 0, faces = [1, 1, 1, 1, 1, 3]\<rparr>
     = 3127499741229511 / 4503599627370496 \<and>
   spec_tieFraction \<lparr>ref = 0, faces = [1, 1, 1, 1, 1, 3]\<rparr> \<lparr>ref = 1, faces = [1, 2, 2, 2, 2, 3]\<rparr> = 1 / 6 \<and>
   double (1 / 6) = 6004799503160661 / 36028797018963968 \<and>
   double (double (2501999792983609 / 18014398509481984 + 3127499741229511 / 4503599627370496)
           + 6004799503160661 / 36028797018963968) = 9007199254740991 / 9007199254740992 \<and>
   (2501999792983609 / 18014398509481984 + 3127499741229511 / 4503599627370496
      + 6004799503160661 / 36028797018963968 :: rat) = 36028797018963967 / 36028797018963968 \<and>
   (2501999792983609 / 18014398509481984 + 3127499741229511 / 4503599627370496 + 1 / 6 :: rat)
      = 54043195528445951 / 54043195528445952 \<and>
   numFaces \<lparr>ref = 0, faces = [1]\<rparr> = numFaces \<lparr>ref = 1, faces = [0]\<rparr> \<and>
   calculateWinProbability \<lparr>ref = 0, faces = [1]\<rparr> \<lparr>ref = 1, faces = [0]\<rparr> = 2001599834386887 / 72057594037927936 \<and>
   calculateWinProbability \<lparr>ref = 1, faces = [0]\<rparr> \<lparr>ref = 0, faces = [1]\<rparr> = 0 \<and>
   spec_tieFraction \<lparr>ref = 0, faces = [1]\<rparr> \<lparr>ref = 1, faces = [0]\<rparr> = 0"
  by code_simp

text \<open>
  C7, amended: for dice \<open>A\<close> and \<open>B\<close> with the same number \<open>n\<close> of faces, the pairs the loops
  count as wins of \<open>A\<close>, the pairs they count as wins of \<open>B\<close> and the ties are \<open>n * n\<close> pairs
  altogether. The two win probabilities add up to at most 1 in the program's arithmetic:
  for \<^verbatim>\<open>calculate\<close> of \<^verbatim>\<open>index.ts\<close> always, for \<^verbatim>\<open>calculateWinProbability\<close> of \<^verbatim>\<open>game.js\<close> when
  \<open>n = 6\<close>, the only face count its parser accepts. With the tie fraction they add up to 1
  only up to rounding: the three numbers, added exactly, are within \<open>3 * 2 ^ - 54\<close> of 1,
  for \<^verbatim>\<open>index.ts\<close> whenever \<open>n \<ge> 1\<close> and for \<^verbatim>\<open>game.js\<close> when \<open>n = 6\<close>.
\<close>

theorem C7_complement:
  assumes "numFaces A = numFaces B"
  shows "countWins (faces A) (faces B) + countWins (faces B) (faces A) + spec_tiePairs (faces A) (faces B)
           = numFaces A * numFaces A \<and>
         double (calculate A B + calculate B A) \<le> 1 \<and>
         (numFaces A = 6 \<longrightarrow> double (calculateWinProbability A B + calculateWinProbability B A) \<le> 1) \<and>
         (0 < numFaces A \<longrightarrow>
            \<bar>calculate A B + calculate B A + double (spec_tieFraction A B) - 1\<bar> \<le> 3 / 2 ^ 54) \<and>
         (numFaces A = 6 \<longrightarrow>
            \<bar>calculateWinProbability A B + calculateWinProbability B A + double (spec_tieFraction A B) - 1\<bar>
              \<le> 3 / 2 ^ 54)"
proof -
  let ?w = "countWins (faces A) (faces B)" and ?v = "countWins (faces B) (faces A)"
    and ?u = "spec_tiePairs (faces A) (faces B)"
  let ?t = "numFaces A * numFaces A"
  have len: "length (faces B) = length (faces A)"
    using assms by (simp add: numFaces_def)
  have counts: "?w + ?v + ?u = ?t"
    using pairs_partition [of "faces A" "faces B"] by (simp add: countWins_spec numFaces_def len)
  then have two: "?w + ?v \<le> ?t" by linarith
  have ts: "calculate A B = double (of_nat ?w / of_nat ?t)" "calculate B A = double (of_nat ?v / of_nat ?t)"
    if "0 < numFaces A"
    using that len by (simp_all add: calculate_def numFaces_def Let_def)
  have ts0: "calculate A B = 0" "calculate B A = 0" if "numFaces A = 0"
    using that len by (simp_all add: calculate_def numFaces_def Let_def)
  have js: "calculateWinProbability A B = double (of_nat ?w / of_nat ?t)"
    "calculateWinProbability B A = double (of_nat ?v / of_nat ?t)"
    if "numFaces A = 6"
    using that by (simp_all add: calculateWinProbability_def)
  have tie: "spec_tieFraction A B = of_nat ?u / of_nat ?t"
    by (simp add: spec_tieFraction_def numFaces_def len)
  have c2: "double (calculate A B + calculate B A) \<le> 1"
  proof (cases "numFaces A = 0")
    case True
    then show ?thesis by (simp add: ts0 double_def)
  next
    case False
    then have "0 < numFaces A" by simp
    from ts [OF this] two_quotients [OF two] show ?thesis by simp
  qed
  have c3: "double (calculateWinProbability A B + calculateWinProbability B A) \<le> 1" if "numFaces A = 6"
    using js [OF that] two_quotients [OF two] by simp
  have c4: "\<bar>calculate A B + calculate B A + double (spec_tieFraction A B) - 1\<bar> \<le> 3 / 2 ^ 54"
    if "0 < numFaces A"
    using ts [OF that] three_quotients [OF counts] that by (simp add: tie)
  have c5: "\<bar>calculateWinProbability A B + calculateWinProbability B A + double (spec_tieFraction A B) - 1\<bar>
              \<le> 3 / 2 ^ 54"
    if "numFaces A = 6"
    using js [OF that] three_quotients [OF counts] that by (simp add: tie)
  from counts c2 c3 c4 c5 show ?thesis by (intro conjI impI)
qed

theorem C7_complement_witness:
  "numFaces dieA = numFaces dieB \<and> 0 < numFaces dieA \<and> numFaces dieA = 6 \<and>
   countWins (faces dieA) (faces dieB) + countWins (faces dieB) (faces dieA)
     + spec_tiePairs (faces dieA) (faces dieB) = numFaces dieA * numFaces dieA \<and>
   double (calculate dieA dieB + calculate dieB dieA) \<le> 1 \<and>
   double (calculateWinProbability dieA dieB + calculateWinProbability dieB dieA) \<le> 1 \<and>
   \<bar>calculate dieA dieB + calculate dieB dieA + double (spec_tieFraction dieA dieB) - 1\<bar> \<le> 3 / 2 ^ 54 \<and>
   \<bar>calculateWinProbability dieA dieB + calculateWinProbability dieB dieA
      + double (spec_tieFraction dieA dieB) - 1\<bar> \<le> 3 / 2 ^ 54"
proof -
  have n: "numFaces dieA = numFaces dieB" "0 < numFaces dieA" "numFaces dieA = 6"
    by (simp_all add: numFaces_def dieA_def dieB_def)
  note inst = C7_complement [OF n(1)]
  from n inst [THEN conjunct1] inst [THEN conjunct2, THEN conjunct1]
    inst [THEN conjunct2, THEN conjunct2, THEN conjunct1, THEN mp, OF n(3)]
    inst [THEN conjunct2, THEN conjunct2, THEN conjunct2, THEN conjunct1, THEN mp, OF n(2)]
    inst [THEN conjunct2, THEN conjunct2, THEN conjunct2, THEN conjunct2, THEN mp, OF n(3)]
  show ?thesis by (intro conjI)
qed

section \<open>The remainder of non-negative numbers\<close>

lemma remainder_nonneg: "0 \<le> a \<Longrightarrow> 0 < b \<Longrightarrow> remainder a b = Num (a mod b)"
  by (simp add: remainder_def sgn_if)

section \<open>Hexadecimal text and the two encodings of the secret\<close>

lemma hexValue_hexDigit: "n < 16 \<Longrightarrow> hexValue (hexDigit n) = n"
  by (auto simp: hexValue_def hexDigit_def isDigit_def)

lemma byte_nibbles: "(of_nat (16 * (unat b div 16) + unat b mod 16) :: byte) = b"
  by simp

lemma fromHex_toHex: "fromHex (toHex bs) = bs"
proof (induction bs)
  case Nil
  show ?case by (simp add: toHex_def)
next
  case (Cons b bs)
  have d: "unat b div 16 < 16"
    using unsigned_less [of b, where 'a = nat] by (simp add: less_mult_imp_div_less)
  have "toHex (b # bs) = hexDigit (unat b div 16) # hexDigit (unat b mod 16) # toHex bs"
    by (simp add: toHex_def)
  with Cons d show ?case
    by (simp add: hexValue_hexDigit byte_nibbles del: of_nat_add of_nat_mult)
qed

lemma toHex_inj: "toHex a = toHex b \<Longrightarrow> a = b"
  by (metis fromHex_toHex)

lemma decimal_length: "length (decimal n) = Suc 0 \<longleftrightarrow> n < 10"
proof (cases "n < 10")
  case True
  then show ?thesis by (simp add: decimal.simps)
next
  case False
  have "decimal (n div 10) \<noteq> []" for n
    by (subst decimal.simps) simp
  with False show ?thesis by (subst decimal.simps) simp
qed

lemma encodings_differ: "map of_char (toString num) \<noteq> [word_of_int num :: byte]"
proof
  assume eq: "map of_char (toString num) = [word_of_int num :: byte]"
  then have len: "length (toString num) = 1"
    by (metis length_map length_Cons list.size(3) One_nat_def)
  have pos: "\<not> num < 0"
  proof
    assume "num < 0"
    then have "length (toString num) = Suc (length (decimal (nat (- num))))"
      by (simp add: toString_def)
    moreover have "decimal m \<noteq> []" for m by (subst decimal.simps) simp
    ultimately show False using len by simp
  qed
  with len have small: "nat num < 10"
    by (simp add: toString_def decimal_length)
  with pos have "toString num = [char_of (48 + nat num)]"
    by (simp add: toString_def decimal.simps)
  with eq have "(of_char (char_of (48 + nat num)) :: byte) = word_of_int num"
    by simp
  moreover have "(of_char (char_of (48 + nat num)) :: byte) = 48 + word_of_int num"
  proof -
    have "(of_char (char_of (48 + nat num)) :: byte) = of_nat (of_char (char_of (48 + nat num)))"
      by (simp only: of_nat_of_char)
    also have "\<dots> = of_nat (48 + nat num)"
      using small by simp
    also have "\<dots> = 48 + of_int (int (nat num))"
      by (simp only: of_nat_add of_int_of_nat_eq) simp
    also have "\<dots> = 48 + word_of_int num"
      using pos by simp
    finally show ?thesis .
  qed
  ultimately show False by simp
qed

section \<open>How the calls of game.js run\<close>

lemma andThen_cases:
  assumes "andThen m k = (r, w')"
  obtains (returned) a w1 where "m = (Done a, w1)" and "k a w1 = (r, w')"
  | (exited) "m = (Exited, w')" and "r = Exited"
  | (waiting) "m = (Waiting, w')" and "r = Waiting"
  | (threw) "m = (Threw, w')" and "r = Threw"
  using assms by (auto simp: andThen_def split: prod.splits res.splits)

lemma newGenerator_eq:
  "newGenerator P rng w =
     (if rng \<le> 0 then (Threw, w\<lparr>drawn := drawn w + 32\<rparr>)
      else (Done \<lparr>frg_range = rng, frg_key = keyAt P (drawn w), frg_x = secretAt P rng (drawn w),
                   frg_hmac = computeHMAC P (keyAt P (drawn w)) (secretAt P rng (drawn w))\<rparr>,
            w\<lparr>drawn := drawn w + 33\<rparr>))"
  by (simp add: newGenerator_def randomBytes_def randomInt_def andThen_def keyAt_def secretAt_def)

lemma getUserNumber_run_aux:
  "inputs w = ins \<Longrightarrow> getUserNumber rng w = (r, w') \<Longrightarrow>
     asked rng w r w' \<and> (\<forall>y. r = Done y \<longrightarrow> 0 \<le> y \<and> y < rng)"
proof (induction ins arbitrary: w)
  case Nil
  then show ?case
    by (subst (asm) getUserNumber.simps) (auto simp: asked_def say_def)
next
  case (Cons line rest)
  let ?w1 = "w\<lparr>out := out w @ [Ask rng], inputs := rest\<rparr>"
  have again: "asked rng w r w' \<and> (\<forall>y. r = Done y \<longrightarrow> 0 \<le> y \<and> y < rng)"
    if "getUserNumber rng (say e ?w1) = (r, w')" and "quiet e" for e
    using Cons.IH [of "say e ?w1"] that by (auto simp: say_def asked_def)
  from Cons.prems show ?case
    by (subst (asm) getUserNumber.simps)
       (auto simp: Let_def asked_def [of rng w Exited] asked_def [of rng w "Done _"] say_def [of "Ask rng"]
          split: if_splits option.splits dest!: again)
qed

lemmas getUserNumber_run = getUserNumber_run_aux [OF refl]

lemma selectDice_js_run_aux:
  "inputs w = ins \<Longrightarrow> selectDice_js dl av w = (r, w') \<Longrightarrow>
     offered av w r w' \<and> (\<forall>d. r = Done d \<longrightarrow> d \<in> set av)"
proof (induction ins arbitrary: w)
  case Nil
  then show ?case
    by (subst (asm) selectDice_js.simps) (auto simp: offered_def say_def)
next
  case (Cons line rest)
  let ?w1 = "w\<lparr>out := out w @ [Offer User av, AskSelection], inputs := rest\<rparr>"
  have again: "offered av w r w' \<and> (\<forall>d. r = Done d \<longrightarrow> d \<in> set av)"
    if "selectDice_js dl av (say e ?w1) = (r, w')" and "quiet e" for e
    using Cons.IH [of "say e ?w1"] that by (auto simp: say_def offered_def)
  from Cons.prems show ?case
    by (subst (asm) selectDice_js.simps)
       (auto simp: Let_def offered_def [of av w Exited] offered_def [of av w "Done _"]
          say_def [of "Offer User av"] say_def [of AskSelection]
          split: if_splits option.splits dest!: again)
qed

lemmas selectDice_js_run = selectDice_js_run_aux [OF refl]

lemma andThen_simps [simp]:
  "andThen (Done a, w) k = k a w"
  "andThen (Exited, w) k = (Exited, w)"
  "andThen (Waiting, w) k = (Waiting, w)"
  "andThen (Threw, w) k = (Threw, w)"
  by (simp_all add: andThen_def)

lemma secretAt_range: "0 < rng \<Longrightarrow> 0 \<le> secretAt P rng n \<and> secretAt P rng n < rng"
  by (simp add: secretAt_def)

lemma start_firstMove_run:
  assumes "start_firstMove P w = (r, w')"
  shows "drawn w' = drawn w + 33 \<and> r \<noteq> Threw \<and>
     (\<exists>rest. out w' = out w @ Announce ''first move''
                 # Commit 2 (computeHMAC P (keyAt P (drawn w)) (secretAt P 2 (drawn w))) # Ask 2 # rest \<and>
        list_all (\<lambda>e. quiet e \<or> e = Reveal (secretAt P 2 (drawn w)) (toHex (keyAt P (drawn w)))) rest \<and>
        (\<forall>res. r = Done res \<longrightarrow>
           Reveal (secretAt P 2 (drawn w)) (toHex (keyAt P (drawn w))) \<in> set rest)) \<and>
     (\<forall>res. r = Done res \<longrightarrow>
        last (out w') = Reveal (secretAt P 2 (drawn w)) (toHex (keyAt P (drawn w))) \<and>
        (\<exists>y. 0 \<le> y \<and> y < 2 \<and> res = Num ((secretAt P 2 (drawn w) + y) mod 2)))"
proof -
  have x: "0 \<le> secretAt P 2 (drawn w)" "secretAt P 2 (drawn w) < 2"
    using secretAt_range [of 2 P "drawn w"] by simp_all
  from assms show ?thesis
    apply (simp add: start_firstMove_def newGenerator_eq getHMAC_def computeResult_def reveal_def)
    apply (erule andThen_cases)
       apply (auto dest!: getUserNumber_run simp: asked_def say_def remainder_nonneg x list_all_iff)
    done
qed

lemma start_roll_run:
  assumes "start_roll P who die w = (r, w')"
  shows "drawn w' = drawn w + 33 \<and> r \<noteq> Threw \<and>
     (\<exists>rest. out w' = out w @ Announce ''roll''
                 # Commit 6 (computeHMAC P (keyAt P (drawn w)) (secretAt P 6 (drawn w))) # Ask 6 # rest \<and>
        list_all (\<lambda>e. quiet e \<or> e = Reveal (secretAt P 6 (drawn w)) (toHex (keyAt P (drawn w))) \<or>
                      (\<exists>n. 0 \<le> n \<and> n < 6 \<and> e = Roll who die (Num n) (getFace die (Num n)))) rest \<and>
        (\<forall>v. r = Done v \<longrightarrow>
           Reveal (secretAt P 6 (drawn w)) (toHex (keyAt P (drawn w))) \<in> set rest \<and>
           (\<exists>n. 0 \<le> n \<and> n < 6 \<and> v = getFace die (Num n) \<and>
                last (out w') = Roll who die (Num n) v)))"
proof -
  have x: "0 \<le> secretAt P 6 (drawn w)" "secretAt P 6 (drawn w) < 6"
    using secretAt_range [of 6 P "drawn w"] by simp_all
  from assms show ?thesis
    apply (simp add: start_roll_def newGenerator_eq getHMAC_def computeResult_def reveal_def Let_def)
    apply (erule andThen_cases)
       apply (auto dest!: getUserNumber_run simp: asked_def say_def remainder_nonneg x list_all_iff)
    done
qed

lemma quiet_inBounds: "quiet e \<Longrightarrow> inBounds e"
  by (cases e) auto

lemma getFace_inBounds:
  "0 \<le> n \<Longrightarrow> n < int (length (faces die)) \<Longrightarrow> inBounds (Roll who die (Num n) (getFace die (Num n)))"
  by (simp add: getFace_def)

lemma start_firstMove_inBounds:
  "start_firstMove P w = (r, w') \<Longrightarrow> list_all inBounds (out w) \<Longrightarrow> list_all inBounds (out w')"
  by (drule start_firstMove_run) (fastforce simp: list_all_iff dest: quiet_inBounds)

lemma start_roll_inBounds:
  "start_roll P who die w = (r, w') \<Longrightarrow> length (faces die) = 6 \<Longrightarrow>
     list_all inBounds (out w) \<Longrightarrow> list_all inBounds (out w')"
  by (drule start_roll_run) (fastforce simp: list_all_iff getFace_def dest: quiet_inBounds)

lemma computerSelectDice_run:
  assumes "computerSelectDice P av w = (r, w')"
  shows "drawn w' = drawn w + 1 \<and>
     (if av = [] then r = Threw \<and> out w' = out w @ [Offer Computer av]
      else \<exists>d. d \<in> set av \<and> r = Done d \<and> out w' = out w @ [Offer Computer av, Chose Computer d])"
  using assms by (auto simp: computerSelectDice_def say_def Let_def split: if_splits)

section \<open>How the calls of index.ts run\<close>

lemma getNumber_run:
  assumes "getNumber rng w = (r, w')"
  shows "asked rng w r w' \<and> (\<forall>y. r = Done (Value y) \<longrightarrow> 0 \<le> y \<and> y < rng)"
  using assms
  by (auto simp: getNumber_def asked_def say_def Let_def split: list.splits if_splits option.splits)

lemma generate_run:
  assumes "generate P rng w = (r, w')" and "0 < rng"
  shows "drawn w' = drawn w + 33 \<and> r \<noteq> Threw \<and>
     (\<exists>rest. out w' = out w @ Commit rng (calculateHMAC P (keyAt P (drawn w)) (secretAt P rng (drawn w)))
                 # Ask rng # rest \<and>
        list_all (\<lambda>e. quiet e \<or> e = Reveal (secretAt P rng (drawn w)) (toHex (keyAt P (drawn w)))) rest \<and>
        (\<forall>res. r = Done (Value res) \<longrightarrow>
           Reveal (secretAt P rng (drawn w)) (toHex (keyAt P (drawn w))) \<in> set rest)) \<and>
     (\<forall>res. r = Done (Value res) \<longrightarrow>
        (\<exists>u. 0 \<le> u \<and> u < rng \<and> res = Num ((secretAt P rng (drawn w) + u) mod rng) \<and>
             (\<exists>evs. out w' = evs @ [Reveal (secretAt P rng (drawn w)) (toHex (keyAt P (drawn w))),
                                    ResultLine (secretAt P rng (drawn w)) u res])))"
proof -
  have x: "0 \<le> secretAt P rng (drawn w)" "secretAt P rng (drawn w) < rng"
    using secretAt_range [OF assms(2), of P "drawn w"] by simp_all
  have key: "map (\<lambda>j. of_nat (entropy P (drawn w + j))) [0..<32] = keyAt P (drawn w)"
    by (simp add: keyAt_def)
  have sec: "int (entropy P (drawn w + 32)) mod rng = secretAt P rng (drawn w)"
    by (simp add: secretAt_def)
  from assms show ?thesis
    apply (simp add: generate_def randomBytes_def randomInt_def Let_def key sec)
    apply (erule andThen_cases)
       apply (auto dest!: getNumber_run simp: asked_def say_def remainder_nonneg x list_all_iff Let_def sec
                   split: nullable.splits)
    done
qed

lemma generate_throws:
  "rng \<le> 0 \<Longrightarrow> generate P rng w = (Threw, w\<lparr>drawn := drawn w + 32\<rparr>)"
  by (simp add: generate_def randomBytes_def randomInt_def)

lemma generate_inBounds:
  assumes "generate P rng w = (r, w')" and "list_all inBounds (out w)"
  shows "list_all inBounds (out w')"
proof (cases "0 < rng")
  case True
  from generate_run [OF assms(1) True] assms(2) show ?thesis
    by (fastforce simp: list_all_iff dest: quiet_inBounds)
next
  case False
  with assms show ?thesis by (auto simp: generate_throws)
qed

lemma determineFirst_inBounds:
  assumes "determineFirst P w = (r, w')" and "list_all inBounds (out w)"
  shows "list_all inBounds (out w')"
  using assms(1)
  apply (simp add: determineFirst_def)
  apply (erule andThen_cases)
     apply (auto dest!: generate_inBounds simp: say_def assms(2) split: nullable.splits)
  done

lemma roll_run:
  assumes "roll P die player w = (r, w')" and pos: "0 < int (numFaces die)"
  shows "drawn w' = drawn w + 33 \<and> r \<noteq> Threw \<and>
     (\<exists>rest. out w' = out w @ Announce ''roll''
                 # Commit (int (numFaces die))
                     (calculateHMAC P (keyAt P (drawn w)) (secretAt P (int (numFaces die)) (drawn w)))
                 # Ask (int (numFaces die)) # rest \<and>
        list_all (\<lambda>e. quiet e \<or>
                      e = Reveal (secretAt P (int (numFaces die)) (drawn w)) (toHex (keyAt P (drawn w))) \<or>
                      (\<exists>n. 0 \<le> n \<and> n < int (numFaces die) \<and>
                           e = Roll player die (Num n) (getFace die (Num n)))) rest)"
  using assms(1)
  apply (simp add: roll_def)
  apply (erule andThen_cases)
     apply (auto dest!: generate_run [OF _ pos] simp: say_def list_all_iff Let_def split: nullable.splits)
  done

lemma roll_inBounds:
  assumes "roll P die player w = (r, w')" and "list_all inBounds (out w)"
  shows "list_all inBounds (out w')"
proof (cases "0 < int (numFaces die)")
  case True
  from roll_run [OF assms(1) True] assms(2) show ?thesis
    by (fastforce simp: list_all_iff getFace_def numFaces_def dest: quiet_inBounds)
next
  case False
  with assms show ?thesis
    by (auto simp: roll_def generate_throws say_def)
qed

lemma splice1_length: "i < length xs \<Longrightarrow> length (splice1 i xs) + 1 = length xs"
  by (simp add: splice1_def)

lemma splice1_subset: "set (splice1 i xs) \<subseteq> set xs"
  by (auto simp: splice1_def dest: in_set_takeD in_set_dropD)

lemma splice1_absent:
  assumes "distinct (map ref xs)" and "i < length xs" and "e \<in> set (splice1 i xs)"
  shows "ref e \<noteq> ref (xs ! i)"
proof
  assume same: "ref e = ref (xs ! i)"
  have "xs = take i xs @ xs ! i # drop (Suc i) xs"
    using assms(2) by (rule id_take_nth_drop)
  then have "distinct (map ref (take i xs @ xs ! i # drop (Suc i) xs))"
    using assms(1) by simp
  then have "ref (xs ! i) \<notin> ref ` set (take i xs)" and "ref (xs ! i) \<notin> ref ` set (drop (Suc i) xs)"
    by auto
  moreover from assms(3) have "e \<in> set (take i xs) \<or> e \<in> set (drop (Suc i) xs)"
    by (simp add: splice1_def)
  ultimately show False
    using same by (metis imageI)
qed

lemma randomInt_run:
  "randomInt P n w = (r, w') \<Longrightarrow>
     out w' = out w \<and> (if n \<le> 0 then r = Threw else \<exists>i. r = Done i \<and> 0 \<le> i \<and> i < n)"
  by (auto simp: randomInt_def split: if_splits)

lemma selectDice_ui_run:
  assumes "selectDice_ui pool w = (r, w')"
  shows "r \<noteq> Threw \<and> (\<exists>evs. out w' = out w @ Offer User pool # evs \<and> list_all quiet evs) \<and>
         (\<forall>i. r = Done (Value i) \<longrightarrow> 0 \<le> i \<and> nat i < length pool)"
  using assms by (auto simp: selectDice_ui_def say_def asked_def dest!: getNumber_run)

lemma selectDice_ts_Computer:
  assumes run: "selectDice_ts P ds Computer w = (r, w')" and ne: "ds \<noteq> []"
  defines "i \<equiv> entropy P (drawn w) mod length ds"
  shows "\<exists>evs tail. out w' = out w @ Offer Computer ds # Chose Computer (ds ! i)
                          # Offer User (splice1 i ds) # evs @ tail \<and>
           list_all quiet evs \<and> (tail = [] \<or> (\<exists>u. tail = [Chose User u])) \<and>
           (\<forall>c u. r = Done (Value c, Value u) \<longrightarrow> c = ds ! i \<and> u \<in> set (splice1 i ds))"
proof -
  have nat_i: "nat (int (entropy P (drawn w)) mod int (length ds)) = i"
    by (simp add: i_def nat_mod_distrib)
  define w1 where "w1 = say (Chose Computer (ds ! i)) ((say (Offer Computer ds) w)\<lparr>drawn := drawn w + 1\<rparr>)"
  have out1: "out w1 = out w @ [Offer Computer ds, Chose Computer (ds ! i)]"
    by (simp add: w1_def say_def)
  from run ne have "andThen (selectDice_ui (splice1 i ds) w1)
      (\<lambda>userIdx w. case userIdx of Null \<Rightarrow> (Done (Null, Null), w)
         | Value j \<Rightarrow> (Done (Value (ds ! i), Value (splice1 i ds ! nat j)),
                        say (Chose User (splice1 i ds ! nat j)) w)) = (r, w')"
    by (simp add: selectDice_ts_def Let_def randomInt_def nat_i w1_def say_def cong: nullable.case_cong)
  then show ?thesis
  proof (cases rule: andThen_cases)
    case (returned userIdx w2)
    from selectDice_ui_run [OF returned(1)] obtain evs where
      evs: "out w2 = out w1 @ Offer User (splice1 i ds) # evs" "list_all quiet evs"
      and idx: "\<forall>j. userIdx = Value j \<longrightarrow> 0 \<le> j \<and> nat j < length (splice1 i ds)"
      by auto
    show ?thesis
    proof (cases userIdx)
      case Null
      with returned(2) have "r = Done (Null, Null)" "w' = w2" by auto
      with evs out1 have "out w' = out w @ Offer Computer ds # Chose Computer (ds ! i)
                          # Offer User (splice1 i ds) # evs @ [] \<and>
           list_all quiet evs \<and> ([] = [] \<or> (\<exists>u. [] = [Chose User u])) \<and>
           (\<forall>c u. r = Done (Value c, Value u) \<longrightarrow> c = ds ! i \<and> u \<in> set (splice1 i ds))"
        by simp
      then show ?thesis by (intro exI)
    next
      case (Value j)
      define u where "u = splice1 i ds ! nat j"
      from Value idx have mem: "u \<in> set (splice1 i ds)" by (simp add: u_def)
      from Value returned(2) have "r = Done (Value (ds ! i), Value u)" "w' = say (Chose User u) w2"
        by (auto simp: u_def)
      with evs out1 mem have "out w' = out w @ Offer Computer ds # Chose Computer (ds ! i)
                          # Offer User (splice1 i ds) # evs @ [Chose User u] \<and>
           list_all quiet evs \<and> ([Chose User u] = [] \<or> (\<exists>v. [Chose User u] = [Chose User v])) \<and>
           (\<forall>c u. r = Done (Value c, Value u) \<longrightarrow> c = ds ! i \<and> u \<in> set (splice1 i ds))"
        by (simp add: say_def)
      then show ?thesis by (intro exI)
    qed
  next
    case exited
    from selectDice_ui_run [OF exited(1)] obtain evs where
      "out w' = out w1 @ Offer User (splice1 i ds) # evs" "list_all quiet evs" by auto
    with out1 exited(2) have "out w' = out w @ Offer Computer ds # Chose Computer (ds ! i)
                          # Offer User (splice1 i ds) # evs @ [] \<and>
           list_all quiet evs \<and> ([] = [] \<or> (\<exists>u. [] = [Chose User u])) \<and>
           (\<forall>c u. r = Done (Value c, Value u) \<longrightarrow> c = ds ! i \<and> u \<in> set (splice1 i ds))"
      by simp
    then show ?thesis by (intro exI)
  next
    case waiting
    from selectDice_ui_run [OF waiting(1)] obtain evs where
      "out w' = out w1 @ Offer User (splice1 i ds) # evs" "list_all quiet evs" by auto
    with out1 waiting(2) have "out w' = out w @ Offer Computer ds # Chose Computer (ds ! i)
                          # Offer User (splice1 i ds) # evs @ [] \<and>
           list_all quiet evs \<and> ([] = [] \<or> (\<exists>u. [] = [Chose User u])) \<and>
           (\<forall>c u. r = Done (Value c, Value u) \<longrightarrow> c = ds ! i \<and> u \<in> set (splice1 i ds))"
      by simp
    then show ?thesis by (intro exI)
  next
    case threw
    from selectDice_ui_run [OF threw(1)] show ?thesis by simp
  qed
qed

lemma selectDice_ts_User:
  assumes run: "selectDice_ts P ds User w = (r, w')"
  shows "\<exists>evs tail. out w' = out w @ Offer User ds # evs @ tail \<and> list_all quiet evs \<and>
           (tail = [] \<or>
            (\<exists>j c. j < length ds \<and>
               (tail = [Chose User (ds ! j), Offer Computer (splice1 j ds)] \<or>
                tail = [Chose User (ds ! j), Offer Computer (splice1 j ds), Chose Computer c]))) \<and>
           (\<forall>c u. r = Done (Value c, Value u) \<longrightarrow>
              (\<exists>j. j < length ds \<and> u = ds ! j \<and> c \<in> set (splice1 j ds) \<and>
                   tail = [Chose User u, Offer Computer (splice1 j ds), Chose Computer c]))"
    (is "\<exists>evs tail. ?shape evs tail")
proof -
  from run have "andThen (selectDice_ui ds w)
      (\<lambda>userIdx w. case userIdx of Null \<Rightarrow> (Done (Null, Null), w)
         | Value j \<Rightarrow>
             andThen (randomInt P (int (length (splice1 (nat j) ds)))
                        (say (Offer Computer (splice1 (nat j) ds)) (say (Chose User (ds ! nat j)) w)))
               (\<lambda>compIdx w. (Done (Value (splice1 (nat j) ds ! nat compIdx), Value (ds ! nat j)),
                               say (Chose Computer (splice1 (nat j) ds ! nat compIdx)) w))) = (r, w')"
    by (simp add: selectDice_ts_def Let_def cong: nullable.case_cong)
  then show ?thesis
  proof (cases rule: andThen_cases)
    case (returned userIdx w2)
    from selectDice_ui_run [OF returned(1)] obtain evs where
      evs: "out w2 = out w @ Offer User ds # evs" "list_all quiet evs"
      and idx: "\<forall>j. userIdx = Value j \<longrightarrow> 0 \<le> j \<and> nat j < length ds"
      by auto
    show ?thesis
    proof (cases userIdx)
      case Null
      with returned(2) have "r = Done (Null, Null)" "w' = w2" by auto
      with evs have "?shape evs []" by simp
      then show ?thesis by (intro exI)
    next
      case (Value j0)
      define j where "j = nat j0"
      define w3 where "w3 = say (Offer Computer (splice1 j ds)) (say (Chose User (ds ! j)) w2)"
      from Value idx have j: "j < length ds" by (simp add: j_def)
      have out3: "out w3 = out w @ Offer User ds # evs @ [Chose User (ds ! j), Offer Computer (splice1 j ds)]"
        using evs by (simp add: w3_def say_def)
      from returned(2) Value have "andThen (randomInt P (int (length (splice1 j ds))) w3)
           (\<lambda>compIdx w. (Done (Value (splice1 j ds ! nat compIdx), Value (ds ! j)),
                           say (Chose Computer (splice1 j ds ! nat compIdx)) w)) = (r, w')"
        by (simp add: j_def w3_def)
      then show ?thesis
      proof (cases rule: andThen_cases)
        case (returned compIdx w4)
        from randomInt_run [OF returned(1)] have out4: "out w4 = out w3"
          and k: "0 \<le> compIdx" "nat compIdx < length (splice1 j ds)"
          by (auto split: if_splits)
        define c where "c = splice1 j ds ! nat compIdx"
        from k have mem: "c \<in> set (splice1 j ds)" by (simp add: c_def)
        from returned(2) have "r = Done (Value c, Value (ds ! j))" "w' = say (Chose Computer c) w4"
          by (auto simp: c_def)
        with out3 out4 evs(2) j mem
        have "?shape evs [Chose User (ds ! j), Offer Computer (splice1 j ds), Chose Computer c]"
          by (auto simp: say_def)
        then show ?thesis by (intro exI)
      next
        case threw
        from randomInt_run [OF threw(1)] out3 evs(2) j threw(2)
        have "?shape evs [Chose User (ds ! j), Offer Computer (splice1 j ds)]"
          by (auto split: if_splits)
        then show ?thesis by (intro exI)
      next
        case exited
        from randomInt_run [OF exited(1)] show ?thesis by (simp split: if_splits)
      next
        case waiting
        from randomInt_run [OF waiting(1)] show ?thesis by (simp split: if_splits)
      qed
    qed
  next
    case exited
    from selectDice_ui_run [OF exited(1)] obtain evs where
      "out w' = out w @ Offer User ds # evs" "list_all quiet evs" by auto
    with exited(2) have "?shape evs []" by simp
    then show ?thesis by (intro exI)
  next
    case waiting
    from selectDice_ui_run [OF waiting(1)] obtain evs where
      "out w' = out w @ Offer User ds # evs" "list_all quiet evs" by auto
    with waiting(2) have "?shape evs []" by simp
    then show ?thesis by (intro exI)
  next
    case threw
    from selectDice_ui_run [OF threw(1)] show ?thesis by simp
  qed
qed

section \<open>The pools of the two selection steps\<close>

lemma filter_ref_keeps:
  "ref u \<notin> ref ` set ds \<Longrightarrow> filter (\<lambda>d. ref d \<noteq> ref u) ds = ds"
  by (induction ds) auto

lemma filter_ref_length:
  "distinct (map ref ds) \<Longrightarrow> u \<in> set ds \<Longrightarrow>
     length (filter (\<lambda>d. ref d \<noteq> ref u) ds) + 1 = length ds"
proof (induction ds)
  case Nil
  then show ?case by simp
next
  case (Cons a ds)
  show ?case
  proof (cases "ref a = ref u")
    case True
    with Cons.prems have "ref u \<notin> ref ` set ds" by auto
    with True show ?thesis by (simp add: filter_ref_keeps)
  next
    case False
    with Cons show ?thesis by auto
  qed
qed

lemma reducedBy_filter:
  "distinct (map ref ds) \<Longrightarrow> d \<in> set ds \<Longrightarrow> reducedBy ds d (filter (\<lambda>e. ref e \<noteq> ref d) ds)"
  using filter_ref_length [of ds d] by (auto simp: reducedBy_def)

lemma reducedBy_splice1:
  "distinct (map ref ds) \<Longrightarrow> i < length ds \<Longrightarrow> reducedBy ds (ds ! i) (splice1 i ds)"
  using splice1_subset [of i ds] splice1_length [of i ds]
  by (auto simp: reducedBy_def dest: splice1_absent)

lemma start_selection_user:
  assumes run: "start_selection P ds (Num 0) w = (r, w')"
  shows "\<exists>evs tail. out w' = out w @ FirstMover User # Offer User ds # evs @ tail \<and>
           list_all (\<lambda>e. quiet e \<or> e = Offer User ds) evs \<and>
           (tail = [] \<or>
            (\<exists>u c. u \<in> set ds \<and>
               (tail = [Chose User u, Offer Computer (filter (\<lambda>d. ref d \<noteq> ref u) ds)] \<or>
                tail = [Chose User u, Offer Computer (filter (\<lambda>d. ref d \<noteq> ref u) ds), Chose Computer c]))) \<and>
           (\<forall>u c. r = Done (u, c) \<longrightarrow>
              u \<in> set ds \<and> c \<in> set (filter (\<lambda>d. ref d \<noteq> ref u) ds) \<and>
              tail = [Chose User u, Offer Computer (filter (\<lambda>d. ref d \<noteq> ref u) ds), Chose Computer c])"
    (is "\<exists>evs tail. ?shape evs tail")
proof -
  from run have "andThen (selectDice_js ds ds (say (FirstMover User) w))
      (\<lambda>userDice w.
         andThen (computerSelectDice P (filter (\<lambda>d. ref d \<noteq> ref userDice) ds) (say (Chose User userDice) w))
           (\<lambda>computerDice w. (Done (userDice, computerDice), w))) = (r, w')"
    by (simp add: start_selection_def Let_def)
  then show ?thesis
  proof (cases rule: andThen_cases)
    case (returned u w2)
    from selectDice_js_run [OF returned(1)] obtain evs where
      evs: "out w2 = out w @ FirstMover User # Offer User ds # evs"
           "list_all (\<lambda>e. quiet e \<or> e = Offer User ds) evs"
      and u: "u \<in> set ds"
      by (auto simp: offered_def say_def)
    let ?rem = "filter (\<lambda>d. ref d \<noteq> ref u) ds"
    from returned(2) show ?thesis
    proof (cases rule: andThen_cases)
      case (returned c w3)
      from computerSelectDice_run [OF returned(1)] have
        "c \<in> set ?rem" "out w3 = out w2 @ [Chose User u, Offer Computer ?rem, Chose Computer c]"
        by (auto simp: say_def split: if_splits)
      with returned(2) evs u have "?shape evs [Chose User u, Offer Computer ?rem, Chose Computer c]"
        by auto
      then show ?thesis by (intro exI)
    next
      case threw
      from computerSelectDice_run [OF threw(1)] have
        "out w' = out w2 @ [Chose User u, Offer Computer ?rem]"
        by (auto simp: say_def split: if_splits)
      with threw(2) evs u have "?shape evs [Chose User u, Offer Computer ?rem]"
        by auto
      then show ?thesis by (intro exI)
    next
      case exited
      from computerSelectDice_run [OF exited(1)] show ?thesis by (simp split: if_splits)
    next
      case waiting
      from computerSelectDice_run [OF waiting(1)] show ?thesis by (simp split: if_splits)
    qed
  next
    case exited
    from selectDice_js_run [OF exited(1)] obtain evs where
      "out w' = out w @ FirstMover User # Offer User ds # evs"
      "list_all (\<lambda>e. quiet e \<or> e = Offer User ds) evs"
      by (auto simp: offered_def say_def)
    with exited(2) have "?shape evs []" by simp
    then show ?thesis by (intro exI)
  next
    case waiting
    from selectDice_js_run [OF waiting(1)] obtain evs where
      "out w' = out w @ FirstMover User # Offer User ds # evs"
      "list_all (\<lambda>e. quiet e \<or> e = Offer User ds) evs"
      by (auto simp: offered_def say_def)
    with waiting(2) have "?shape evs []" by simp
    then show ?thesis by (intro exI)
  next
    case threw
    from selectDice_js_run [OF threw(1)] show ?thesis by (simp add: offered_def)
  qed
qed

lemma start_selection_computer:
  assumes run: "start_selection P ds res w = (r, w')" and res: "res \<noteq> Num 0"
  shows "(ds = [] \<and> r = Threw \<and> out w' = out w @ [FirstMover Computer, Offer Computer ds]) \<or>
         (\<exists>c evs tail. c \<in> set ds \<and>
            out w' = out w @ FirstMover Computer # Offer Computer ds # Chose Computer c
                       # Offer User (filter (\<lambda>d. ref d \<noteq> ref c) ds) # evs @ tail \<and>
            list_all (\<lambda>e. quiet e \<or> e = Offer User (filter (\<lambda>d. ref d \<noteq> ref c) ds)) evs \<and>
            (tail = [] \<or> (\<exists>u. tail = [Chose User u])) \<and>
            (\<forall>u c'. r = Done (u, c') \<longrightarrow>
               c' = c \<and> u \<in> set (filter (\<lambda>d. ref d \<noteq> ref c) ds) \<and> tail = [Chose User u]))"
    (is "?empty \<or> (\<exists>c evs tail. ?shape c evs tail)")
proof -
  from run res have "andThen (computerSelectDice P ds (say (FirstMover Computer) w))
      (\<lambda>computerDice w.
         andThen (selectDice_js ds (filter (\<lambda>d. ref d \<noteq> ref computerDice) ds) w)
           (\<lambda>userDice w. (Done (userDice, computerDice), say (Chose User userDice) w))) = (r, w')"
    by (simp add: start_selection_def Let_def)
  then show ?thesis
  proof (cases rule: andThen_cases)
    case (returned c w2)
    let ?rem = "filter (\<lambda>d. ref d \<noteq> ref c) ds"
    from computerSelectDice_run [OF returned(1)] have c: "c \<in> set ds"
      and out2: "out w2 = out w @ [FirstMover Computer, Offer Computer ds, Chose Computer c]"
      by (auto simp: say_def split: if_splits)
    from returned(2) have "\<exists>evs tail. ?shape c evs tail"
    proof (cases rule: andThen_cases)
      case (returned u w3)
      from selectDice_js_run [OF returned(1)] obtain evs where
        "out w3 = out w2 @ Offer User ?rem # evs" "list_all (\<lambda>e. quiet e \<or> e = Offer User ?rem) evs"
        "u \<in> set ?rem"
        by (auto simp: offered_def)
      with returned(2) out2 c have "?shape c evs [Chose User u]"
        by (auto simp: say_def)
      then show ?thesis by (intro exI)
    next
      case exited
      from selectDice_js_run [OF exited(1)] obtain evs where
        "out w' = out w2 @ Offer User ?rem # evs" "list_all (\<lambda>e. quiet e \<or> e = Offer User ?rem) evs"
        by (auto simp: offered_def)
      with exited(2) out2 c have "?shape c evs []" by simp
      then show ?thesis by (intro exI)
    next
      case waiting
      from selectDice_js_run [OF waiting(1)] obtain evs where
        "out w' = out w2 @ Offer User ?rem # evs" "list_all (\<lambda>e. quiet e \<or> e = Offer User ?rem) evs"
        by (auto simp: offered_def)
      with waiting(2) out2 c have "?shape c evs []" by simp
      then show ?thesis by (intro exI)
    next
      case threw
      from selectDice_js_run [OF threw(1)] show ?thesis by (simp add: offered_def)
    qed
    then show ?thesis by blast
  next
    case threw
    from computerSelectDice_run [OF threw(1)] threw(2) have ?empty
      by (auto simp: say_def split: if_splits)
    then show ?thesis ..
  next
    case exited
    from computerSelectDice_run [OF exited(1)] show ?thesis by (simp split: if_splits)
  next
    case waiting
    from computerSelectDice_run [OF waiting(1)] show ?thesis by (simp split: if_splits)
  qed
qed

lemma start_selection_pools:
  assumes dist: "distinct (map ref ds)" and run: "start_selection P ds res w = (r, w')"
  defines "first \<equiv> (if res = Num 0 then User else Computer)"
  shows "\<exists>evs. out w' = out w @ evs \<and> FirstMover first \<in> set evs \<and>
          (\<forall>q pool. Offer q pool \<in> set evs \<longrightarrow>
             (q = first \<and> pool = ds) \<or>
             (q \<noteq> first \<and> (\<exists>d. Chose first d \<in> set evs \<and> reducedBy ds d pool))) \<and>
          (\<forall>u c. r = Done (u, c) \<longrightarrow> ref u \<noteq> ref c \<and> u \<in> set ds \<and> c \<in> set ds)"
proof (cases "res = Num 0")
  case True
  with run have "start_selection P ds (Num 0) w = (r, w')" by simp
  from start_selection_user [OF this] obtain evs tail where
    out: "out w' = out w @ FirstMover User # Offer User ds # evs @ tail"
    and evs: "list_all (\<lambda>e. quiet e \<or> e = Offer User ds) evs"
    and tail: "tail = [] \<or>
            (\<exists>u c. u \<in> set ds \<and>
               (tail = [Chose User u, Offer Computer (filter (\<lambda>d. ref d \<noteq> ref u) ds)] \<or>
                tail = [Chose User u, Offer Computer (filter (\<lambda>d. ref d \<noteq> ref u) ds), Chose Computer c]))"
    and fin: "\<forall>u c. r = Done (u, c) \<longrightarrow>
              u \<in> set ds \<and> c \<in> set (filter (\<lambda>d. ref d \<noteq> ref u) ds) \<and>
              tail = [Chose User u, Offer Computer (filter (\<lambda>d. ref d \<noteq> ref u) ds), Chose Computer c]"
    by blast
  have offers: "(q = User \<and> pool = ds) \<or>
       (q \<noteq> User \<and> (\<exists>d. Chose User d \<in> set (FirstMover User # Offer User ds # evs @ tail) \<and> reducedBy ds d pool))"
    if "Offer q pool \<in> set (FirstMover User # Offer User ds # evs @ tail)" for q pool
  proof -
    from that evs consider "q = User \<and> pool = ds" | "Offer q pool \<in> set tail"
      by (auto simp: list_all_iff)
    then show ?thesis
    proof cases
      case 1
      then show ?thesis by simp
    next
      case 2
      with tail obtain u where "u \<in> set ds" "Chose User u \<in> set tail"
        "q = Computer" "pool = filter (\<lambda>d. ref d \<noteq> ref u) ds"
        by auto
      with reducedBy_filter [OF dist, of u] show ?thesis by auto
    qed
  qed
  from fin have "\<forall>u c. r = Done (u, c) \<longrightarrow> ref u \<noteq> ref c \<and> u \<in> set ds \<and> c \<in> set ds"
    by auto
  with out offers True show ?thesis
    by (intro exI [of _ "FirstMover User # Offer User ds # evs @ tail"]) (simp add: first_def)
next
  case False
  from start_selection_computer [OF run False] show ?thesis
  proof
    assume "ds = [] \<and> r = Threw \<and> out w' = out w @ [FirstMover Computer, Offer Computer ds]"
    with False show ?thesis
      by (intro exI [of _ "[FirstMover Computer, Offer Computer ds]"]) (simp add: first_def)
  next
    assume "\<exists>c evs tail. c \<in> set ds \<and>
            out w' = out w @ FirstMover Computer # Offer Computer ds # Chose Computer c
                       # Offer User (filter (\<lambda>d. ref d \<noteq> ref c) ds) # evs @ tail \<and>
            list_all (\<lambda>e. quiet e \<or> e = Offer User (filter (\<lambda>d. ref d \<noteq> ref c) ds)) evs \<and>
            (tail = [] \<or> (\<exists>u. tail = [Chose User u])) \<and>
            (\<forall>u c'. r = Done (u, c') \<longrightarrow>
               c' = c \<and> u \<in> set (filter (\<lambda>d. ref d \<noteq> ref c) ds) \<and> tail = [Chose User u])"
    then obtain c evs tail where c: "c \<in> set ds"
      and out: "out w' = out w @ FirstMover Computer # Offer Computer ds # Chose Computer c
                       # Offer User (filter (\<lambda>d. ref d \<noteq> ref c) ds) # evs @ tail"
      and evs: "list_all (\<lambda>e. quiet e \<or> e = Offer User (filter (\<lambda>d. ref d \<noteq> ref c) ds)) evs"
      and tail: "tail = [] \<or> (\<exists>u. tail = [Chose User u])"
      and fin: "\<forall>u c'. r = Done (u, c') \<longrightarrow>
               c' = c \<and> u \<in> set (filter (\<lambda>d. ref d \<noteq> ref c) ds) \<and> tail = [Chose User u]"
      by blast
    let ?evs = "FirstMover Computer # Offer Computer ds # Chose Computer c
                       # Offer User (filter (\<lambda>d. ref d \<noteq> ref c) ds) # evs @ tail"
    have offers: "(q = Computer \<and> pool = ds) \<or>
       (q \<noteq> Computer \<and> (\<exists>d. Chose Computer d \<in> set ?evs \<and> reducedBy ds d pool))"
      if "Offer q pool \<in> set ?evs" for q pool
    proof -
      from that evs tail consider "q = Computer \<and> pool = ds"
        | "q = User \<and> pool = filter (\<lambda>d. ref d \<noteq> ref c) ds"
        by (auto simp: list_all_iff)
      then show ?thesis
      proof cases
        case 1
        then show ?thesis by simp
      next
        case 2
        with reducedBy_filter [OF dist c] show ?thesis by auto
      qed
    qed
    from fin c have "\<forall>u c. r = Done (u, c) \<longrightarrow> ref u \<noteq> ref c \<and> u \<in> set ds \<and> c \<in> set ds"
      by auto
    with out offers False show ?thesis
      by (intro exI [of _ ?evs]) (simp add: first_def)
  qed
qed

lemma selectDice_ts_pools:
  assumes dist: "distinct (map ref ds)" and run: "selectDice_ts P ds first w = (r, w')"
  shows "\<exists>evs. out w' = out w @ evs \<and>
          (\<forall>q pool. Offer q pool \<in> set evs \<longrightarrow>
             (q = first \<and> pool = ds) \<or>
             (q \<noteq> first \<and> (\<exists>d. Chose first d \<in> set evs \<and> reducedBy ds d pool))) \<and>
          (\<forall>c u. r = Done (Value c, Value u) \<longrightarrow> ref c \<noteq> ref u \<and> c \<in> set ds \<and> u \<in> set ds)"
proof (cases first)
  case Computer
  show ?thesis
  proof (cases "ds = []")
    case True
    with run Computer have "r = Threw" "out w' = out w @ [Offer Computer ds]"
      by (auto simp: selectDice_ts_def randomInt_def say_def)
    with Computer show ?thesis
      by (intro exI [of _ "[Offer Computer ds]"]) simp
  next
    case False
    define i where "i = entropy P (drawn w) mod length ds"
    from False have i: "i < length ds" by (simp add: i_def)
    from run Computer have "selectDice_ts P ds Computer w = (r, w')" by simp
    from selectDice_ts_Computer [OF this False] obtain evs tail where
      out: "out w' = out w @ Offer Computer ds # Chose Computer (ds ! i) # Offer User (splice1 i ds) # evs @ tail"
      and evs: "list_all quiet evs"
      and tail: "tail = [] \<or> (\<exists>u. tail = [Chose User u])"
      and fin: "\<forall>c u. r = Done (Value c, Value u) \<longrightarrow> c = ds ! i \<and> u \<in> set (splice1 i ds)"
      unfolding i_def by blast
    let ?evs = "Offer Computer ds # Chose Computer (ds ! i) # Offer User (splice1 i ds) # evs @ tail"
    note red = reducedBy_splice1 [OF dist i]
    have offers: "(q = Computer \<and> pool = ds) \<or>
       (q \<noteq> Computer \<and> (\<exists>d. Chose Computer d \<in> set ?evs \<and> reducedBy ds d pool))"
      if "Offer q pool \<in> set ?evs" for q pool
    proof -
      from that evs tail consider "q = Computer \<and> pool = ds" | "q = User \<and> pool = splice1 i ds"
        by (auto simp: list_all_iff)
      then show ?thesis
      proof cases
        case 1
        then show ?thesis by simp
      next
        case 2
        with red show ?thesis by auto
      qed
    qed
    from fin red i have "\<forall>c u. r = Done (Value c, Value u) \<longrightarrow> ref c \<noteq> ref u \<and> c \<in> set ds \<and> u \<in> set ds"
      by (auto simp: reducedBy_def)
    with out offers Computer show ?thesis
      by (intro exI [of _ ?evs]) simp
  qed
next
  case User
  from run User have "selectDice_ts P ds User w = (r, w')" by simp
  from selectDice_ts_User [OF this] obtain evs tail where
    out: "out w' = out w @ Offer User ds # evs @ tail" and evs: "list_all quiet evs"
    and tail: "tail = [] \<or>
            (\<exists>j c. j < length ds \<and>
               (tail = [Chose User (ds ! j), Offer Computer (splice1 j ds)] \<or>
                tail = [Chose User (ds ! j), Offer Computer (splice1 j ds), Chose Computer c]))"
    and fin: "\<forall>c u. r = Done (Value c, Value u) \<longrightarrow>
              (\<exists>j. j < length ds \<and> u = ds ! j \<and> c \<in> set (splice1 j ds) \<and>
                   tail = [Chose User u, Offer Computer (splice1 j ds), Chose Computer c])"
    by blast
  let ?evs = "Offer User ds # evs @ tail"
  have offers: "(q = User \<and> pool = ds) \<or>
       (q \<noteq> User \<and> (\<exists>d. Chose User d \<in> set ?evs \<and> reducedBy ds d pool))"
    if "Offer q pool \<in> set ?evs" for q pool
  proof -
    from that evs consider "q = User \<and> pool = ds" | "Offer q pool \<in> set tail"
      by (auto simp: list_all_iff)
    then show ?thesis
    proof cases
      case 1
      then show ?thesis by simp
    next
      case 2
      with tail obtain j where "j < length ds" "Chose User (ds ! j) \<in> set tail"
        "q = Computer" "pool = splice1 j ds"
        by auto
      with reducedBy_splice1 [OF dist, of j] show ?thesis by auto
    qed
  qed
  have "ref c \<noteq> ref u \<and> c \<in> set ds \<and> u \<in> set ds" if "r = Done (Value c, Value u)" for c u
  proof -
    from fin that obtain j where "j < length ds" "u = ds ! j" "c \<in> set (splice1 j ds)" by blast
    with reducedBy_splice1 [OF dist, of j] show ?thesis by (auto simp: reducedBy_def)
  qed
  with out offers User show ?thesis
    by (intro exI [of _ ?evs]) simp
qed

section \<open>Evaluating concrete runs\<close>

lemmas text_simps =
  trim_def toUpperCase_def parseInt_def isWhiteSpace_def isDigit_def digitsValue_def Let_def

lemmas run_simps =
  fresh_def say_def andThen_def randomBytes_def randomInt_def remainder_def getFace_def greater_def
  numFaces_def dieA_def dieB_def dieC_def zeroPlatform_def samplePlatform_def

lemmas js_simps =
  start_def start_firstMove_def start_selection_def start_roll_def newGenerator_def
  getUserNumber.simps selectDice_js.simps computerSelectDice_def computeHMAC_def getHMAC_def
  computeResult_def reveal_def

lemmas ts_simps =
  play.simps determineFirst_def selectDice_ts_def selectDice_ui_def roll_def generate_def
  getNumber_def calculateHMAC_def splice1_def

section \<open>C8: the dice pool after the first selection\<close>

text \<open>
  C8, as stated, fails in its last part: the first mover is offered the full pool, so every
  die the first mover leaves is offered to both parties. In the run of \<^verbatim>\<open>game.js\<close> below the
  secret is 0 and the user answers 0, selects first and takes die 0; the die
  \<open>[1, 1, 6, 6, 8, 8]\<close> was shown to the user and is then offered to the computer.
\<close>

theorem C8_counterexample:
  "Offer User [dieA, dieB, dieC] \<in> set (out (snd (start zeroPlatform [dieA, dieB, dieC] (fresh [''0'', ''0''])))) \<and>
   Offer Computer [dieB, dieC] \<in> set (out (snd (start zeroPlatform [dieA, dieB, dieC] (fresh [''0'', ''0''])))) \<and>
   dieB \<in> set [dieA, dieB, dieC] \<and> dieB \<in> set [dieB, dieC]"
  by (simp add: js_simps run_simps text_simps)

text \<open>
  C8, amended: in the selection step of either implementation, on a list of distinct dice
  objects, the first mover is offered the full pool and every pool offered to the second
  mover is the full pool reduced by a die the first mover chose: that die is absent from
  it by identity, and it is exactly one die shorter. The dice the two parties end up with
  are distinct objects of the list: no die is ever held by both parties. (The dice the
  first mover leaves are offered to both.)
\<close>

theorem C8_pool_reduction:
  assumes "distinct (map ref ds)"
  shows "(start_selection P ds res w = (r, w') \<longrightarrow>
            (\<exists>evs. out w' = out w @ evs \<and>
               FirstMover (if res = Num 0 then User else Computer) \<in> set evs \<and>
               (\<forall>q pool. Offer q pool \<in> set evs \<longrightarrow>
                  (q = (if res = Num 0 then User else Computer) \<and> pool = ds) \<or>
                  (q \<noteq> (if res = Num 0 then User else Computer) \<and>
                   (\<exists>d. Chose (if res = Num 0 then User else Computer) d \<in> set evs \<and> reducedBy ds d pool))) \<and>
               (\<forall>u c. r = Done (u, c) \<longrightarrow> ref u \<noteq> ref c \<and> u \<in> set ds \<and> c \<in> set ds))) \<and>
         (selectDice_ts P ds first v = (s, v') \<longrightarrow>
            (\<exists>evs. out v' = out v @ evs \<and>
               (\<forall>q pool. Offer q pool \<in> set evs \<longrightarrow>
                  (q = first \<and> pool = ds) \<or>
                  (q \<noteq> first \<and> (\<exists>d. Chose first d \<in> set evs \<and> reducedBy ds d pool))) \<and>
               (\<forall>c u. s = Done (Value c, Value u) \<longrightarrow> ref c \<noteq> ref u \<and> c \<in> set ds \<and> u \<in> set ds)))"
  using start_selection_pools [OF assms, of P res w r w'] selectDice_ts_pools [OF assms, of P first v s v']
  by blast

theorem C8_pool_reduction_witness:
  "distinct (map ref [dieA, dieB, dieC]) \<and>
   start_selection zeroPlatform [dieA, dieB, dieC] (Num 0) (fresh [''0'']) =
     (Done (dieA, dieB),
      \<lparr>inputs = [], drawn = 1,
         out = [FirstMover User, Offer User [dieA, dieB, dieC], AskSelection, Chose User dieA,
                Offer Computer [dieB, dieC], Chose Computer dieB]\<rparr>) \<and>
   reducedBy [dieA, dieB, dieC] dieA [dieB, dieC] \<and> ref dieA \<noteq> ref dieB \<and>
   selectDice_ts zeroPlatform [dieA, dieB, dieC] Computer (fresh [''1'']) =
     (Done (Value dieA, Value dieC),
      \<lparr>inputs = [], drawn = 1,
         out = [Offer Computer [dieA, dieB, dieC], Chose Computer dieA, Offer User [dieB, dieC], Ask 2,
                Chose User dieC]\<rparr>) \<and>
   ref dieA \<noteq> ref dieC"
  using C8_pool_reduction [of "[dieA, dieB, dieC]" zeroPlatform "Num 0" "fresh [''0'']"
      "Done (dieA, dieB)"
      "\<lparr>inputs = [], drawn = 1,
         out = [FirstMover User, Offer User [dieA, dieB, dieC], AskSelection, Chose User dieA,
                Offer Computer [dieB, dieC], Chose Computer dieB]\<rparr>"
      Computer "fresh [''1'']" "Done (Value dieA, Value dieC)"
      "\<lparr>inputs = [], drawn = 1,
         out = [Offer Computer [dieA, dieB, dieC], Chose Computer dieA, Offer User [dieB, dieC], Ask 2,
                Chose User dieC]\<rparr>"]
  by (simp add: js_simps ts_simps run_simps text_simps reducedBy_def)

lemmas char_simps = char_of_def bit_Suc_0_iff hexDigit_def toHex_def toString_def decimal.simps

section \<open>C4: the two encodings of the secret\<close>

lemma byte_congruent: "(word_of_int a :: byte) = word_of_int b \<longleftrightarrow> a mod 256 = b mod 256"
  by (simp add: word_of_int_eq_iff take_bit_eq_mod)

text \<open>
  C4: the digest computations of the two implementations are not the same function. The
  message \<^verbatim>\<open>game.js\<close> hashes is the single byte \<open>secret mod 256\<close>, the one \<^verbatim>\<open>index.ts\<close>
  hashes is the decimal string of the secret, and for every secret the two messages
  differ; so under every key on which the keyed hash tells these two messages apart the
  two digests differ. In \<^verbatim>\<open>game.js\<close> two secrets congruent modulo 256 have the same digest
  under the same key, for every keyed hash.
\<close>

theorem C4_encodings:
  "map of_char (toString secret) \<noteq> [word_of_int secret :: byte] \<and>
   (hmacSha3 P key [word_of_int secret] \<noteq> hmacSha3 P key (map of_char (toString secret)) \<longrightarrow>
      computeHMAC P key secret \<noteq> calculateHMAC P key secret) \<and>
   (a mod 256 = b mod 256 \<longrightarrow> computeHMAC P key a = computeHMAC P key b)"
  using encodings_differ [of secret] toHex_inj byte_congruent [of a b]
  by (auto simp: computeHMAC_def calculateHMAC_def)

theorem C4_encodings_witness:
  "hmacSha3 samplePlatform [7] [word_of_int 0] \<noteq> hmacSha3 samplePlatform [7] (map of_char (toString 0)) \<and>
   computeHMAC samplePlatform [7] 0 = ''0007'' \<and> calculateHMAC samplePlatform [7] 0 = ''3007'' \<and>
   computeHMAC samplePlatform [7] 0 \<noteq> calculateHMAC samplePlatform [7] 0 \<and>
   (256 :: int) mod 256 = 0 mod 256 \<and>
   computeHMAC samplePlatform [7] 256 = computeHMAC samplePlatform [7] 0"
  using C4_encodings [of 0 samplePlatform "[7]" 256 0]
  by (simp add: samplePlatform_def computeHMAC_def calculateHMAC_def char_simps)

section \<open>Digests in a trace\<close>

lemma commits_append: "commits (xs @ ys) = commits xs @ commits ys"
  by (induction xs rule: commits.induct) auto

lemma commits_none: "list_all (\<lambda>e. \<forall>r h. e \<noteq> Commit r h) es \<Longrightarrow> commits es = []"
  by (induction es rule: commits.induct) auto

lemma quiet_no_commit: "quiet e \<Longrightarrow> e \<noteq> Commit r h"
  by (cases e) auto

section \<open>C9: the digest is published before the contribution\<close>

text \<open>
  C9: in every session the digest is the keyed hash of the secret under the key, both
  drawn before any input is read; it is printed before the counterpart is asked, and a
  session prints no other digest. So for any two sequences of lines the counterpart may
  type, the digest the session publishes is the same. This holds for the first-move
  session and the roll sessions of \<^verbatim>\<open>game.js\<close> and for \<^verbatim>\<open>generate\<close> of \<^verbatim>\<open>index.ts\<close> (on a
  range for which the secret can be drawn).
\<close>

theorem C9_digest_fixed:
  "(\<exists>restA restB.
      out (snd (start_firstMove P (w\<lparr>inputs := linesA\<rparr>))) =
        out w @ Announce ''first move''
          # Commit 2 (computeHMAC P (keyAt P (drawn w)) (secretAt P 2 (drawn w))) # Ask 2 # restA \<and>
      out (snd (start_firstMove P (w\<lparr>inputs := linesB\<rparr>))) =
        out w @ Announce ''first move''
          # Commit 2 (computeHMAC P (keyAt P (drawn w)) (secretAt P 2 (drawn w))) # Ask 2 # restB \<and>
      commits restA = [] \<and> commits restB = []) \<and>
   (\<exists>restA restB.
      out (snd (start_roll P who die (w\<lparr>inputs := linesA\<rparr>))) =
        out w @ Announce ''roll''
          # Commit 6 (computeHMAC P (keyAt P (drawn w)) (secretAt P 6 (drawn w))) # Ask 6 # restA \<and>
      out (snd (start_roll P who die (w\<lparr>inputs := linesB\<rparr>))) =
        out w @ Announce ''roll''
          # Commit 6 (computeHMAC P (keyAt P (drawn w)) (secretAt P 6 (drawn w))) # Ask 6 # restB \<and>
      commits restA = [] \<and> commits restB = []) \<and>
   (0 < rng \<longrightarrow>
     (\<exists>restA restB.
        out (snd (generate P rng (w\<lparr>inputs := linesA\<rparr>))) =
          out w @ Commit rng (calculateHMAC P (keyAt P (drawn w)) (secretAt P rng (drawn w))) # Ask rng # restA \<and>
        out (snd (generate P rng (w\<lparr>inputs := linesB\<rparr>))) =
          out w @ Commit rng (calculateHMAC P (keyAt P (drawn w)) (secretAt P rng (drawn w))) # Ask rng # restB \<and>
        commits restA = [] \<and> commits restB = []))"
proof -
  have first: "\<exists>rest. out (snd (start_firstMove P (w\<lparr>inputs := ls\<rparr>))) =
        out w @ Announce ''first move''
          # Commit 2 (computeHMAC P (keyAt P (drawn w)) (secretAt P 2 (drawn w))) # Ask 2 # rest \<and>
        commits rest = []" for ls
  proof -
    obtain r w' where run: "start_firstMove P (w\<lparr>inputs := ls\<rparr>) = (r, w')" by fastforce
    from start_firstMove_run [OF run] obtain rest where
      "out w' = out w @ Announce ''first move''
          # Commit 2 (computeHMAC P (keyAt P (drawn w)) (secretAt P 2 (drawn w))) # Ask 2 # rest"
      "list_all (\<lambda>e. quiet e \<or> e = Reveal (secretAt P 2 (drawn w)) (toHex (keyAt P (drawn w)))) rest"
      by auto
    moreover from this(2) have "commits rest = []"
      by (intro commits_none) (auto simp: list_all_iff dest: quiet_no_commit)
    ultimately show ?thesis using run by simp
  qed
  have rolls: "\<exists>rest. out (snd (start_roll P who die (w\<lparr>inputs := ls\<rparr>))) =
        out w @ Announce ''roll''
          # Commit 6 (computeHMAC P (keyAt P (drawn w)) (secretAt P 6 (drawn w))) # Ask 6 # rest \<and>
        commits rest = []" for ls
  proof -
    obtain r w' where run: "start_roll P who die (w\<lparr>inputs := ls\<rparr>) = (r, w')" by fastforce
    from start_roll_run [OF run] obtain rest where
      "out w' = out w @ Announce ''roll''
          # Commit 6 (computeHMAC P (keyAt P (drawn w)) (secretAt P 6 (drawn w))) # Ask 6 # rest"
      "list_all (\<lambda>e. quiet e \<or> e = Reveal (secretAt P 6 (drawn w)) (toHex (keyAt P (drawn w))) \<or>
                      (\<exists>n. 0 \<le> n \<and> n < 6 \<and> e = Roll who die (Num n) (getFace die (Num n)))) rest"
      by auto
    moreover from this(2) have "commits rest = []"
      by (intro commits_none) (auto simp: list_all_iff dest: quiet_no_commit)
    ultimately show ?thesis using run by simp
  qed
  have gen: "\<exists>rest. out (snd (generate P rng (w\<lparr>inputs := ls\<rparr>))) =
          out w @ Commit rng (calculateHMAC P (keyAt P (drawn w)) (secretAt P rng (drawn w))) # Ask rng # rest \<and>
        commits rest = []" if pos: "0 < rng" for ls
  proof -
    obtain r w' where run: "generate P rng (w\<lparr>inputs := ls\<rparr>) = (r, w')" by fastforce
    from generate_run [OF run pos] obtain rest where
      "out w' = out w @ Commit rng (calculateHMAC P (keyAt P (drawn w)) (secretAt P rng (drawn w))) # Ask rng # rest"
      "list_all (\<lambda>e. quiet e \<or> e = Reveal (secretAt P rng (drawn w)) (toHex (keyAt P (drawn w)))) rest"
      by auto
    moreover from this(2) have "commits rest = []"
      by (intro commits_none) (auto simp: list_all_iff dest: quiet_no_commit)
    ultimately show ?thesis using run by simp
  qed
  from first [of linesA] first [of linesB] rolls [of linesA] rolls [of linesB]
       gen [of linesA] gen [of linesB]
  show ?thesis by blast
qed

lemma cells: "[0..<32] = [0, 1, 2, 3, 4, 5, 6, 7, 8, 9, 10, 11, 12, 13, 14, 15, 16, 17, 18, 19, 20,
   21, 22, 23, 24, 25, 26, 27, 28, 29, 30, 31 :: nat]"
  by code_simp

theorem C9_digest_fixed_witness:
  "(0 :: int) < 2 \<and>
   commits (out (snd (generate samplePlatform 2 (fresh [''0''])))) =
   commits (out (snd (generate samplePlatform 2 (fresh [''1''])))) \<and>
   commits (out (snd (generate samplePlatform 2 (fresh [''0''])))) = [(2, ''300001'')] \<and>
   commits (out (snd (start_firstMove samplePlatform (fresh [''?'', ''1''])))) = [(2, ''000001'')] \<and>
   commits (out (snd (start_roll samplePlatform User dieA (fresh [''9'', ''2''])))) = [(6, ''020001'')]"
proof -
  have pos: "(0 :: int) < 2" by simp
  have upd: "(fresh [])\<lparr>inputs := ls\<rparr> = fresh ls" for ls
    by (simp add: fresh_def)
  from C9_digest_fixed [where P = samplePlatform and w = "fresh []" and linesA = "[''0'']"
      and linesB = "[''1'']" and who = User and die = dieA and rng = 2] pos
  obtain restA restB where
    "out (snd (generate samplePlatform 2 (fresh [''0'']))) =
       out (fresh []) @ Commit 2 (calculateHMAC samplePlatform (keyAt samplePlatform (drawn (fresh [])))
             (secretAt samplePlatform 2 (drawn (fresh [])))) # Ask 2 # restA"
    "out (snd (generate samplePlatform 2 (fresh [''1'']))) =
       out (fresh []) @ Commit 2 (calculateHMAC samplePlatform (keyAt samplePlatform (drawn (fresh [])))
             (secretAt samplePlatform 2 (drawn (fresh [])))) # Ask 2 # restB"
    "commits restA = []" "commits restB = []"
    unfolding upd by blast
  then have same: "commits (out (snd (generate samplePlatform 2 (fresh [''0''])))) =
                   commits (out (snd (generate samplePlatform 2 (fresh [''1'']))))"
    by (simp add: commits_append)
  have eval: "commits (out (snd (generate samplePlatform 2 (fresh [''0''])))) = [(2, ''300001'')] \<and>
   commits (out (snd (start_firstMove samplePlatform (fresh [''?'', ''1''])))) = [(2, ''000001'')] \<and>
   commits (out (snd (start_roll samplePlatform User dieA (fresh [''9'', ''2''])))) = [(6, ''020001'')]"
    by (simp add: js_simps ts_simps run_simps text_simps char_simps cells)
  from pos same eval show ?thesis by (intro conjI) simp_all
qed

section \<open>C3: the revealed key and secret reproduce the published digest\<close>

text \<open>
  C3: a generator of \<^verbatim>\<open>game.js\<close> reveals, in hexadecimal, the key under which its digest was
  computed, and the secret, which lies in \<open>[0, range)\<close>; reading the key back and hashing
  the secret again gives the digest. In every session of either implementation the
  values printed at reveal reproduce the digest printed at commit time, and a session
  that returns a result has printed them.
\<close>

theorem C3_round_trip:
  "(newGenerator P rng w = (Done g, wg) \<longrightarrow>
      computeHMAC P (fromHex (snd (reveal g))) (fst (reveal g)) = getHMAC g \<and>
      0 \<le> fst (reveal g) \<and> fst (reveal g) < rng) \<and>
   (start_firstMove P w = (r, v) \<longrightarrow>
      (\<exists>h rest. out v = out w @ Announce ''first move'' # Commit 2 h # Ask 2 # rest \<and>
         (\<forall>x k. Reveal x k \<in> set rest \<longrightarrow> computeHMAC P (fromHex k) x = h) \<and>
         (\<forall>res. r = Done res \<longrightarrow> (\<exists>x k. Reveal x k \<in> set rest)))) \<and>
   (start_roll P who die w = (rr, vr) \<longrightarrow>
      (\<exists>h rest. out vr = out w @ Announce ''roll'' # Commit 6 h # Ask 6 # rest \<and>
         (\<forall>x k. Reveal x k \<in> set rest \<longrightarrow> computeHMAC P (fromHex k) x = h) \<and>
         (\<forall>res. rr = Done res \<longrightarrow> (\<exists>x k. Reveal x k \<in> set rest)))) \<and>
   (0 < rng \<longrightarrow> generate P rng w = (s, u) \<longrightarrow>
      (\<exists>h rest. out u = out w @ Commit rng h # Ask rng # rest \<and>
         (\<forall>x k. Reveal x k \<in> set rest \<longrightarrow> calculateHMAC P (fromHex k) x = h) \<and>
         (\<forall>res. s = Done (Value res) \<longrightarrow> (\<exists>x k. Reveal x k \<in> set rest))))"
proof (intro conjI impI)
  assume "newGenerator P rng w = (Done g, wg)"
  then have pos: "0 < rng" and g: "g = \<lparr>frg_range = rng, frg_key = keyAt P (drawn w),
      frg_x = secretAt P rng (drawn w),
      frg_hmac = computeHMAC P (keyAt P (drawn w)) (secretAt P rng (drawn w))\<rparr>"
    by (auto simp: newGenerator_eq split: if_splits)
  from g show "computeHMAC P (fromHex (snd (reveal g))) (fst (reveal g)) = getHMAC g"
    by (simp add: reveal_def getHMAC_def fromHex_toHex)
  from g secretAt_range [OF pos, of P "drawn w"]
  show "0 \<le> fst (reveal g)" and "fst (reveal g) < rng"
    by (simp_all add: reveal_def)
next
  assume "start_firstMove P w = (r, v)"
  from start_firstMove_run [OF this] obtain rest where
    "out v = out w @ Announce ''first move''
       # Commit 2 (computeHMAC P (keyAt P (drawn w)) (secretAt P 2 (drawn w))) # Ask 2 # rest"
    "list_all (\<lambda>e. quiet e \<or> e = Reveal (secretAt P 2 (drawn w)) (toHex (keyAt P (drawn w)))) rest"
    "\<forall>res. r = Done res \<longrightarrow> Reveal (secretAt P 2 (drawn w)) (toHex (keyAt P (drawn w))) \<in> set rest"
    by blast
  then show "\<exists>h rest. out v = out w @ Announce ''first move'' # Commit 2 h # Ask 2 # rest \<and>
         (\<forall>x k. Reveal x k \<in> set rest \<longrightarrow> computeHMAC P (fromHex k) x = h) \<and>
         (\<forall>res. r = Done res \<longrightarrow> (\<exists>x k. Reveal x k \<in> set rest))"
    by (intro exI [of _ "computeHMAC P (keyAt P (drawn w)) (secretAt P 2 (drawn w))"] exI [of _ rest])
       (fastforce simp: list_all_iff fromHex_toHex)
next
  assume "start_roll P who die w = (rr, vr)"
  from start_roll_run [OF this] obtain rest where
    "out vr = out w @ Announce ''roll''
       # Commit 6 (computeHMAC P (keyAt P (drawn w)) (secretAt P 6 (drawn w))) # Ask 6 # rest"
    "list_all (\<lambda>e. quiet e \<or> e = Reveal (secretAt P 6 (drawn w)) (toHex (keyAt P (drawn w))) \<or>
                   (\<exists>n. 0 \<le> n \<and> n < 6 \<and> e = Roll who die (Num n) (getFace die (Num n)))) rest"
    "\<forall>res. rr = Done res \<longrightarrow> Reveal (secretAt P 6 (drawn w)) (toHex (keyAt P (drawn w))) \<in> set rest"
    by blast
  then show "\<exists>h rest. out vr = out w @ Announce ''roll'' # Commit 6 h # Ask 6 # rest \<and>
         (\<forall>x k. Reveal x k \<in> set rest \<longrightarrow> computeHMAC P (fromHex k) x = h) \<and>
         (\<forall>res. rr = Done res \<longrightarrow> (\<exists>x k. Reveal x k \<in> set rest))"
    by (intro exI [of _ "computeHMAC P (keyAt P (drawn w)) (secretAt P 6 (drawn w))"] exI [of _ rest])
       (fastforce simp: list_all_iff fromHex_toHex)
next
  assume pos: "0 < rng" and "generate P rng w = (s, u)"
  from generate_run [OF this(2) pos] obtain rest where
    "out u = out w @ Commit rng (calculateHMAC P (keyAt P (drawn w)) (secretAt P rng (drawn w))) # Ask rng # rest"
    "list_all (\<lambda>e. quiet e \<or> e = Reveal (secretAt P rng (drawn w)) (toHex (keyAt P (drawn w)))) rest"
    "\<forall>res. s = Done (Value res) \<longrightarrow> Reveal (secretAt P rng (drawn w)) (toHex (keyAt P (drawn w))) \<in> set rest"
    by blast
  then show "\<exists>h rest. out u = out w @ Commit rng h # Ask rng # rest \<and>
         (\<forall>x k. Reveal x k \<in> set rest \<longrightarrow> calculateHMAC P (fromHex k) x = h) \<and>
         (\<forall>res. s = Done (Value res) \<longrightarrow> (\<exists>x k. Reveal x k \<in> set rest))"
    by (intro exI [of _ "calculateHMAC P (keyAt P (drawn w)) (secretAt P rng (drawn w))"] exI [of _ rest])
       (fastforce simp: list_all_iff fromHex_toHex)
qed

theorem C3_round_trip_witness:
  "(0 :: int) < 6 \<and>
   fst (newGenerator samplePlatform 6 (fresh [''1''])) =
     Done \<lparr>frg_range = 6, frg_key = map of_nat [0..<32], frg_x = 2, frg_hmac = ''020001''\<rparr> \<and>
   computeHMAC samplePlatform
     (fromHex ''000102030405060708090a0b0c0d0e0f101112131415161718191a1b1c1d1e1f'') 2 = ''020001'' \<and>
   fst (start_firstMove samplePlatform (fresh [''1''])) = Done (Num 1) \<and>
   (\<exists>h rest x k. out (snd (start_firstMove samplePlatform (fresh [''1'']))) =
        out (fresh [''1'']) @ Announce ''first move'' # Commit 2 h # Ask 2 # rest \<and>
      Reveal x k \<in> set rest \<and> computeHMAC samplePlatform (fromHex k) x = h) \<and>
   fst (start_roll samplePlatform User dieA (fresh [''1''])) = Done (Some 4) \<and>
   (\<exists>h rest x k. out (snd (start_roll samplePlatform User dieA (fresh [''1'']))) =
        out (fresh [''1'']) @ Announce ''roll'' # Commit 6 h # Ask 6 # rest \<and>
      Reveal x k \<in> set rest \<and> computeHMAC samplePlatform (fromHex k) x = h) \<and>
   fst (generate samplePlatform 6 (fresh [''1''])) = Done (Value (Num 3)) \<and>
   (\<exists>h rest x k. out (snd (generate samplePlatform 6 (fresh [''1'']))) =
        out (fresh [''1'']) @ Commit 6 h # Ask 6 # rest \<and>
      Reveal x k \<in> set rest \<and> calculateHMAC samplePlatform (fromHex k) x = h)"
proof -
  let ?G = "\<lparr>frg_range = 6, frg_key = map of_nat [0..<32], frg_x = 2, frg_hmac = ''020001''\<rparr>"
  let ?w = "fresh [''1'']"
  have pos: "(0 :: int) < 6" by simp
  have g: "fst (newGenerator samplePlatform 6 ?w) = Done ?G"
    by (simp add: js_simps run_simps char_simps cells)
  have f: "fst (start_firstMove samplePlatform ?w) = Done (Num 1)"
    by (simp add: js_simps run_simps text_simps char_simps cells)
  have r: "fst (start_roll samplePlatform User dieA ?w) = Done (Some 4)"
    by (simp add: js_simps run_simps text_simps char_simps cells)
  have t: "fst (generate samplePlatform 6 ?w) = Done (Value (Num 3))"
    by (simp add: ts_simps run_simps text_simps char_simps cells)
  note inst = C3_round_trip [where P = samplePlatform and rng = 6 and w = "?w" and g = "?G"
      and wg = "snd (newGenerator samplePlatform 6 ?w)"
      and r = "Done (Num 1)" and v = "snd (start_firstMove samplePlatform ?w)"
      and who = User and die = dieA
      and rr = "Done (Some 4)" and vr = "snd (start_roll samplePlatform User dieA ?w)"
      and s = "Done (Value (Num 3))" and u = "snd (generate samplePlatform 6 ?w)"]
  have g': "newGenerator samplePlatform 6 ?w = (Done ?G, snd (newGenerator samplePlatform 6 ?w))"
    using g by (metis prod.collapse)
  have f': "start_firstMove samplePlatform ?w = (Done (Num 1), snd (start_firstMove samplePlatform ?w))"
    using f by (metis prod.collapse)
  have r': "start_roll samplePlatform User dieA ?w = (Done (Some 4), snd (start_roll samplePlatform User dieA ?w))"
    using r by (metis prod.collapse)
  have t': "generate samplePlatform 6 ?w = (Done (Value (Num 3)), snd (generate samplePlatform 6 ?w))"
    using t by (metis prod.collapse)
  from inst [THEN conjunct1, THEN mp, OF g']
  have "computeHMAC samplePlatform (fromHex (snd (reveal ?G))) (fst (reveal ?G)) = getHMAC ?G"
    by (rule conjunct1)
  then have c1: "computeHMAC samplePlatform
     (fromHex ''000102030405060708090a0b0c0d0e0f101112131415161718191a1b1c1d1e1f'') 2 = ''020001''"
    by (simp add: reveal_def getHMAC_def char_simps cells)
  from inst [THEN conjunct2, THEN conjunct1, THEN mp, OF f']
  obtain h rest where "out (snd (start_firstMove samplePlatform ?w)) =
        out ?w @ Announce ''first move'' # Commit 2 h # Ask 2 # rest"
    and "\<forall>x k. Reveal x k \<in> set rest \<longrightarrow> computeHMAC samplePlatform (fromHex k) x = h"
    and "\<exists>x k. Reveal x k \<in> set rest"
    by blast
  then have c2: "\<exists>h rest x k. out (snd (start_firstMove samplePlatform ?w)) =
        out ?w @ Announce ''first move'' # Commit 2 h # Ask 2 # rest \<and>
      Reveal x k \<in> set rest \<and> computeHMAC samplePlatform (fromHex k) x = h"
    by blast
  from inst [THEN conjunct2, THEN conjunct2, THEN conjunct1, THEN mp, OF r']
  obtain h rest where "out (snd (start_roll samplePlatform User dieA ?w)) =
        out ?w @ Announce ''roll'' # Commit 6 h # Ask 6 # rest"
    and "\<forall>x k. Reveal x k \<in> set rest \<longrightarrow> computeHMAC samplePlatform (fromHex k) x = h"
    and "\<exists>x k. Reveal x k \<in> set rest"
    by blast
  then have c3: "\<exists>h rest x k. out (snd (start_roll samplePlatform User dieA ?w)) =
        out ?w @ Announce ''roll'' # Commit 6 h # Ask 6 # rest \<and>
      Reveal x k \<in> set rest \<and> computeHMAC samplePlatform (fromHex k) x = h"
    by blast
  from inst [THEN conjunct2, THEN conjunct2, THEN conjunct2, THEN mp, THEN mp, OF pos t']
  obtain h rest where "out (snd (generate samplePlatform 6 ?w)) =
        out ?w @ Commit 6 h # Ask 6 # rest"
    and "\<forall>x k. Reveal x k \<in> set rest \<longrightarrow> calculateHMAC samplePlatform (fromHex k) x = h"
    and "\<exists>x k. Reveal x k \<in> set rest"
    by blast
  then have c4: "\<exists>h rest x k. out (snd (generate samplePlatform 6 ?w)) =
        out ?w @ Commit 6 h # Ask 6 # rest \<and>
      Reveal x k \<in> set rest \<and> calculateHMAC samplePlatform (fromHex k) x = h"
    by blast
  from pos g c1 f c2 r c3 t c4 show ?thesis by (intro conjI)
qed

section \<open>What the parsers accept\<close>

lemma parseLoop_js_faces:
  "parseLoop_js n args = Inr ds \<Longrightarrow> \<forall>d\<in>set ds. length (faces d) = 6"
  by (induction args arbitrary: n ds) (auto split: option.splits if_splits sum.splits)

lemma parseDiceConfigs_faces:
  "parseDiceConfigs args = Inr ds \<Longrightarrow> \<forall>d\<in>set ds. length (faces d) = 6"
  by (auto simp: parseDiceConfigs_def split: if_splits dest: parseLoop_js_faces)

lemma parseLoop_ts_faces:
  "parseLoop_ts n fc args = Inr ds \<Longrightarrow> \<forall>d\<in>set ds. 0 < numFaces d"
  by (induction args arbitrary: n fc ds) (auto simp: numFaces_def split: option.splits if_splits sum.splits)

lemma parse_ts_faces:
  "parse_ts args = Inr ds \<Longrightarrow> \<forall>d\<in>set ds. 0 < numFaces d"
  by (auto simp: parse_ts_def split: if_splits dest: parseLoop_ts_faces)

section \<open>Rolls stay inside the die\<close>

lemma start_selection_inBounds:
  assumes run: "start_selection P ds res w = (r, w')" and old: "list_all inBounds (out w)"
  shows "list_all inBounds (out w') \<and> (\<forall>u c. r = Done (u, c) \<longrightarrow> u \<in> set ds \<and> c \<in> set ds)"
proof (cases "res = Num 0")
  case True
  with run have "start_selection P ds (Num 0) w = (r, w')" by simp
  from start_selection_user [OF this] old show ?thesis
    by (fastforce simp: list_all_iff dest: quiet_inBounds)
next
  case False
  from start_selection_computer [OF run False] old show ?thesis
    by (fastforce simp: list_all_iff dest: quiet_inBounds)
qed

lemma start_roll_face:
  assumes "start_roll P who die w = (Done v, w')" and "length (faces die) = 6"
  shows "\<exists>a. v = Some a \<and> a \<in> set (faces die)"
proof -
  from start_roll_run [OF assms(1)] obtain n where "0 \<le> n" "n < 6" "v = getFace die (Num n)"
    by blast
  with assms(2) show ?thesis by (simp add: getFace_def)
qed

lemma start_inBounds:
  assumes run: "start P ds w = (r, w')" and six: "\<forall>d\<in>set ds. length (faces d) = 6"
    and old: "list_all inBounds (out w)"
  shows "list_all inBounds (out w') \<and>
         (\<forall>g. r = Done g \<longrightarrow>
            (\<exists>a b. compRoll_js g = Some a \<and> a \<in> set (faces (computerDice_js g)) \<and>
                   userRoll_js g = Some b \<and> b \<in> set (faces (userDice_js g))))"
  using run unfolding start_def
proof (cases rule: andThen_cases)
  case (returned res w1)
  note b1 = start_firstMove_inBounds [OF returned(1) old]
  from returned(2) show ?thesis
  proof (cases rule: andThen_cases)
    case (returned sel w2)
    obtain u c where sel: "sel = (u, c)" by (cases sel)
    from start_selection_inBounds [OF returned(1) b1] sel six
    have b2: "list_all inBounds (out w2)" and u: "length (faces u) = 6" and c: "length (faces c) = 6"
      by auto
    from returned(2) sel have "andThen (start_roll P Computer c w2) (\<lambda>compRoll w.
       andThen (start_roll P User u w) (\<lambda>userRoll w.
         (Done \<lparr>userDice_js = u, computerDice_js = c, compRoll_js = compRoll, userRoll_js = userRoll\<rparr>,
          say (if greater userRoll compRoll then Win User
               else if greater compRoll userRoll then Win Computer else Draw) w))) = (r, w')"
      by simp
    then show ?thesis
    proof (cases rule: andThen_cases)
      case (returned cr w3)
      note b3 = start_roll_inBounds [OF returned(1) c b2]
      note f3 = start_roll_face [OF returned(1) c]
      from returned(2) show ?thesis
      proof (cases rule: andThen_cases)
        case (returned ur w4)
        note b4 = start_roll_inBounds [OF returned(1) u b3]
        note f4 = start_roll_face [OF returned(1) u]
        from returned(2) b4 f3 f4 show ?thesis
          by (auto simp: say_def)
      next
        case exited
        with start_roll_inBounds [OF exited(1) u b3] show ?thesis by simp
      next
        case waiting
        with start_roll_inBounds [OF waiting(1) u b3] show ?thesis by simp
      next
        case threw
        with start_roll_inBounds [OF threw(1) u b3] show ?thesis by simp
      qed
    next
      case exited
      with start_roll_inBounds [OF exited(1) c b2] show ?thesis by simp
    next
      case waiting
      with start_roll_inBounds [OF waiting(1) c b2] show ?thesis by simp
    next
      case threw
      with start_roll_inBounds [OF threw(1) c b2] show ?thesis by simp
    qed
  next
    case exited
    with start_selection_inBounds [OF exited(1) b1] show ?thesis by simp
  next
    case waiting
    with start_selection_inBounds [OF waiting(1) b1] show ?thesis by simp
  next
    case threw
    with start_selection_inBounds [OF threw(1) b1] show ?thesis by simp
  qed
next
  case exited
  with start_firstMove_inBounds [OF exited(1) old] show ?thesis by simp
next
  case waiting
  with start_firstMove_inBounds [OF waiting(1) old] show ?thesis by simp
next
  case threw
  with start_firstMove_inBounds [OF threw(1) old] show ?thesis by simp
qed

lemma selectDice_ts_inBounds:
  assumes run: "selectDice_ts P ds first w = (r, w')" and old: "list_all inBounds (out w)"
  shows "list_all inBounds (out w')"
proof (cases first)
  case User
  with run have "selectDice_ts P ds User w = (r, w')" by simp
  from selectDice_ts_User [OF this] old show ?thesis
    by (fastforce simp: list_all_iff dest: quiet_inBounds)
next
  case Computer
  show ?thesis
  proof (cases "ds = []")
    case True
    with run Computer old show ?thesis
      by (auto simp: selectDice_ts_def randomInt_def say_def)
  next
    case False
    from run Computer have "selectDice_ts P ds Computer w = (r, w')" by simp
    from selectDice_ts_Computer [OF this False] old show ?thesis
      by (fastforce simp: list_all_iff dest: quiet_inBounds)
  qed
qed

lemma play_inBounds:
  "play P ds w = (r, w') \<Longrightarrow> list_all inBounds (out w) \<Longrightarrow> list_all inBounds (out w')"
proof (induction P ds w arbitrary: r w' rule: play.induct)
  case (1 P ds w)
  obtain r1 w1 where d: "determineFirst P w = (r1, w1)" by fastforce
  note b1 = determineFirst_inBounds [OF d "1.prems"(2)]
  have table: "list_all inBounds (out (say (ShowTable ds) y))" if "list_all inBounds (out y)" for y
    using that by (simp add: say_def)
  from "1.prems"(1) d have run: "(case (r1, w1) of
        (Exited, w1) \<Rightarrow> (Exited, w1)
      | (Waiting, w1) \<Rightarrow> (Waiting, w1)
      | (Threw, w1) \<Rightarrow> (Threw, w1)
      | (Done Null, w1) \<Rightarrow> play P ds (say (ShowTable ds) w1)
      | (Done (Value first), w1) \<Rightarrow>
          (case selectDice_ts P ds first w1 of
             (Exited, w2) \<Rightarrow> (Exited, w2)
           | (Waiting, w2) \<Rightarrow> (Waiting, w2)
           | (Threw, w2) \<Rightarrow> (Threw, w2)
           | (Done (Null, userDie), w2) \<Rightarrow> play P ds (say (ShowTable ds) w2)
           | (Done (Value computerDie, Null), w2) \<Rightarrow> play P ds (say (ShowTable ds) w2)
           | (Done (Value computerDie, Value userDie), w2) \<Rightarrow>
               (case roll P computerDie Computer w2 of
                  (Exited, w3) \<Rightarrow> (Exited, w3)
                | (Waiting, w3) \<Rightarrow> (Waiting, w3)
                | (Threw, w3) \<Rightarrow> (Threw, w3)
                | (Done Null, w3) \<Rightarrow> play P ds (say (ShowTable ds) w3)
                | (Done (Value computerRoll), w3) \<Rightarrow>
                    (case roll P userDie User w3 of
                       (Exited, w4) \<Rightarrow> (Exited, w4)
                     | (Waiting, w4) \<Rightarrow> (Waiting, w4)
                     | (Threw, w4) \<Rightarrow> (Threw, w4)
                     | (Done Null, w4) \<Rightarrow> play P ds (say (ShowTable ds) w4)
                     | (Done (Value userRoll), w4) \<Rightarrow>
                         (Done (),
                          say (if greater userRoll computerRoll then Win User
                               else if greater computerRoll userRoll then Win Computer
                               else Draw) w4))))) = (r, w')"
    by (subst (asm) play.simps) simp
  show ?case
  proof (cases r1)
    case (Done first)
    show ?thesis
    proof (cases first)
      case Null
      with run Done have "play P ds (say (ShowTable ds) w1) = (r, w')" by simp
      from "1.IH"(1) [OF d [symmetric] Done Null this table [OF b1]] show ?thesis .
    next
      case (Value f)
      obtain r2 w2 where s: "selectDice_ts P ds f w1 = (r2, w2)" by fastforce
      note b2 = selectDice_ts_inBounds [OF s b1]
      show ?thesis
      proof (cases r2)
        case sel: (Done pair)
        obtain cd ud where pair: "pair = (cd, ud)" by (cases pair)
        show ?thesis
        proof (cases cd)
          case cNull: Null
          with run Done Value s sel pair have "play P ds (say (ShowTable ds) w2) = (r, w')" by simp
          from "1.IH"(2) [OF d [symmetric] Done Value s [symmetric] sel pair [symmetric] cNull this table [OF b2]]
          show ?thesis .
        next
          case cVal: (Value c)
          show ?thesis
          proof (cases ud)
            case uNull: Null
            with run Done Value s sel pair cVal have "play P ds (say (ShowTable ds) w2) = (r, w')" by simp
            from "1.IH"(3) [OF d [symmetric] Done Value s [symmetric] sel pair [symmetric] cVal uNull
                 this table [OF b2]]
            show ?thesis .
          next
            case uVal: (Value u)
            obtain r3 w3 where cr: "roll P c Computer w2 = (r3, w3)" by fastforce
            note b3 = roll_inBounds [OF cr b2]
            show ?thesis
            proof (cases r3)
              case croll: (Done x)
              show ?thesis
              proof (cases x)
                case xNull: Null
                with run Done Value s sel pair cVal uVal cr croll
                have "play P ds (say (ShowTable ds) w3) = (r, w')" by simp
                from "1.IH"(4) [OF d [symmetric] Done Value s [symmetric] sel pair [symmetric] cVal uVal
                     cr [symmetric] croll xNull this table [OF b3]]
                show ?thesis .
              next
                case xVal: (Value cval)
                obtain r4 w4 where ur: "roll P u User w3 = (r4, w4)" by fastforce
                note b4 = roll_inBounds [OF ur b3]
                show ?thesis
                proof (cases r4)
                  case uroll: (Done y)
                  show ?thesis
                  proof (cases y)
                    case yNull: Null
                    with run Done Value s sel pair cVal uVal cr croll xVal ur uroll
                    have "play P ds (say (ShowTable ds) w4) = (r, w')" by simp
                    from "1.IH"(5) [OF d [symmetric] Done Value s [symmetric] sel pair [symmetric] cVal uVal
                         cr [symmetric] croll xVal ur [symmetric] uroll yNull this table [OF b4]]
                    show ?thesis .
                  next
                    case (Value uval)
                    with run Done \<open>first = Value f\<close> s sel pair cVal uVal cr croll xVal ur uroll b4
                    show ?thesis by (auto simp: say_def)
                  qed
                qed (use run Done Value s sel pair cVal uVal cr croll xVal ur b4 in auto)
              qed
            qed (use run Done Value s sel pair cVal uVal cr b3 in auto)
          qed
        qed
      qed (use run Done Value s b2 in auto)
    qed
  qed (use run b1 in auto)
qed

lemma inBounds_Roll:
  "list_all inBounds es \<Longrightarrow> Roll p d i v \<in> set es \<Longrightarrow>
     \<exists>n. i = Num n \<and> 0 \<le> n \<and> n < int (numFaces d) \<and> v = Some (faces d ! nat n) \<and>
         faces d ! nat n \<in> set (faces d)"
  by (cases i) (auto simp: list_all_iff numFaces_def dest!: bspec)

section \<open>C10: getFace is never called out of bounds\<close>

text \<open>
  C10: in a game of \<^verbatim>\<open>game.js\<close> on dice its parser accepted, and in a game of \<^verbatim>\<open>index.ts\<close>
  (whose parser accepts only dice with at least one face), every roll calls \<^verbatim>\<open>getFace\<close>
  with an index that is a number at least 0 and strictly less than the die's face count,
  and \<^verbatim>\<open>getFace\<close> returns the face at that index, one of the die's face values. A finished
  game of \<^verbatim>\<open>game.js\<close> holds two such roll values.
\<close>

theorem C10_rolls_in_bounds:
  "(parseDiceConfigs args = Inr ds \<longrightarrow> start P ds w = (r, w') \<longrightarrow> list_all inBounds (out w) \<longrightarrow>
      (\<forall>p d i v. Roll p d i v \<in> set (out w') \<longrightarrow>
         (\<exists>n. i = Num n \<and> 0 \<le> n \<and> n < int (numFaces d) \<and> v = Some (faces d ! nat n) \<and>
              faces d ! nat n \<in> set (faces d))) \<and>
      (\<forall>g. r = Done g \<longrightarrow>
         (\<exists>a b. compRoll_js g = Some a \<and> a \<in> set (faces (computerDice_js g)) \<and>
                userRoll_js g = Some b \<and> b \<in> set (faces (userDice_js g))))) \<and>
   (parse_ts targs = Inr tds \<longrightarrow> (\<forall>d\<in>set tds. 0 < numFaces d)) \<and>
   (play P tds v = (s, v') \<longrightarrow> list_all inBounds (out v) \<longrightarrow>
      (\<forall>p d i x. Roll p d i x \<in> set (out v') \<longrightarrow>
         (\<exists>n. i = Num n \<and> 0 \<le> n \<and> n < int (numFaces d) \<and> x = Some (faces d ! nat n) \<and>
              faces d ! nat n \<in> set (faces d))))"
proof (intro conjI impI)
  assume "parseDiceConfigs args = Inr ds" and "start P ds w = (r, w')" and "list_all inBounds (out w)"
  from start_inBounds [OF this(2) parseDiceConfigs_faces [OF this(1)] this(3)]
  show "\<forall>p d i v. Roll p d i v \<in> set (out w') \<longrightarrow>
         (\<exists>n. i = Num n \<and> 0 \<le> n \<and> n < int (numFaces d) \<and> v = Some (faces d ! nat n) \<and>
              faces d ! nat n \<in> set (faces d))"
    and "\<forall>g. r = Done g \<longrightarrow>
         (\<exists>a b. compRoll_js g = Some a \<and> a \<in> set (faces (computerDice_js g)) \<and>
                userRoll_js g = Some b \<and> b \<in> set (faces (userDice_js g)))"
    by (blast dest: inBounds_Roll)+
next
  assume "parse_ts targs = Inr tds"
  then show "\<forall>d\<in>set tds. 0 < numFaces d" by (rule parse_ts_faces)
next
  assume "play P tds v = (s, v')" and "list_all inBounds (out v)"
  from play_inBounds [OF this]
  show "\<forall>p d i x. Roll p d i x \<in> set (out v') \<longrightarrow>
         (\<exists>n. i = Num n \<and> 0 \<le> n \<and> n < int (numFaces d) \<and> x = Some (faces d ! nat n) \<and>
              faces d ! nat n \<in> set (faces d))"
    by (blast dest: inBounds_Roll)
qed

theorem C10_rolls_in_bounds_witness:
  "parseDiceConfigs [''2,2,4,4,9,9'', ''1,1,6,6,8,8'', ''3,3,5,5,7,7''] = Inr [dieA, dieB, dieC] \<and>
   fst (start zeroPlatform [dieA, dieB, dieC] (fresh [''1'', ''0'', ''3'', ''4''])) =
     Done \<lparr>userDice_js = dieB, computerDice_js = dieA, compRoll_js = Some 4, userRoll_js = Some 8\<rparr> \<and>
   list_all inBounds (out (fresh [''1'', ''0'', ''3'', ''4''])) \<and>
   Roll Computer dieA (Num 3) (Some 4)
     \<in> set (out (snd (start zeroPlatform [dieA, dieB, dieC] (fresh [''1'', ''0'', ''3'', ''4''])))) \<and>
   (\<exists>n. Num 3 = Num n \<and> 0 \<le> n \<and> n < int (numFaces dieA) \<and> Some 4 = Some (faces dieA ! nat n) \<and>
        faces dieA ! nat n \<in> set (faces dieA)) \<and>
   parse_ts [''2,2,4,4,9,9'', ''1,1,6,6,8,8'', ''3,3,5,5,7,7''] = Inr [dieA, dieB, dieC] \<and>
   0 < numFaces dieA \<and>
   fst (play zeroPlatform [dieA, dieB, dieC] (fresh [''1'', ''0'', ''3'', ''4''])) = Done () \<and>
   Roll User dieA (Num 4) (Some 9)
     \<in> set (out (snd (play zeroPlatform [dieA, dieB, dieC] (fresh [''1'', ''0'', ''3'', ''4''])))) \<and>
   (\<exists>n. Num 4 = Num n \<and> 0 \<le> n \<and> n < int (numFaces dieA) \<and> Some 9 = Some (faces dieA ! nat n) \<and>
        faces dieA ! nat n \<in> set (faces dieA))"
proof -
  let ?args = "[''2,2,4,4,9,9'', ''1,1,6,6,8,8'', ''3,3,5,5,7,7'']"
  let ?ds = "[dieA, dieB, dieC]"
  let ?w = "fresh [''1'', ''0'', ''3'', ''4'']"
  let ?g = "\<lparr>userDice_js = dieB, computerDice_js = dieA, compRoll_js = Some 4, userRoll_js = Some 8\<rparr>"
  have pj: "parseDiceConfigs ?args = Inr ?ds"
    by (simp add: parseDiceConfigs_def run_simps text_simps)
  have pt: "parse_ts ?args = Inr ?ds"
    by (simp add: parse_ts_def run_simps text_simps)
  have old: "list_all inBounds (out ?w)"
    by (simp add: fresh_def)
  have js: "fst (start zeroPlatform ?ds ?w) = Done ?g"
    by (simp add: js_simps run_simps text_simps)
  have jr: "Roll Computer dieA (Num 3) (Some 4) \<in> set (out (snd (start zeroPlatform ?ds ?w)))"
    by (simp add: js_simps run_simps text_simps)
  have ts: "fst (play zeroPlatform ?ds ?w) = Done ()"
    by (simp add: ts_simps run_simps text_simps)
  have tr: "Roll User dieA (Num 4) (Some 9) \<in> set (out (snd (play zeroPlatform ?ds ?w)))"
    by (simp add: ts_simps run_simps text_simps)
  note inst = C10_rolls_in_bounds [where args = ?args and ds = ?ds and P = zeroPlatform and w = ?w
      and r = "Done ?g" and w' = "snd (start zeroPlatform ?ds ?w)"
      and targs = ?args and tds = ?ds and v = ?w and s = "Done ()"
      and v' = "snd (play zeroPlatform ?ds ?w)"]
  have js': "start zeroPlatform ?ds ?w = (Done ?g, snd (start zeroPlatform ?ds ?w))"
    using js by (metis prod.collapse)
  have ts': "play zeroPlatform ?ds ?w = (Done (), snd (play zeroPlatform ?ds ?w))"
    using ts by (metis prod.collapse)
  from inst [THEN conjunct1, THEN mp, THEN mp, THEN mp, OF pj js' old, THEN conjunct1] jr
  have c1: "\<exists>n. Num 3 = Num n \<and> 0 \<le> n \<and> n < int (numFaces dieA) \<and> Some 4 = Some (faces dieA ! nat n) \<and>
        faces dieA ! nat n \<in> set (faces dieA)"
    by blast
  from inst [THEN conjunct2, THEN conjunct1, THEN mp, OF pt]
  have c2: "0 < numFaces dieA" by simp
  from inst [THEN conjunct2, THEN conjunct2, THEN mp, THEN mp, OF ts' old] tr
  have c3: "\<exists>n. Num 4 = Num n \<and> 0 \<le> n \<and> n < int (numFaces dieA) \<and> Some 9 = Some (faces dieA ! nat n) \<and>
        faces dieA ! nat n \<in> set (faces dieA)"
    by blast
  from pj js old jr c1 pt c2 ts tr c3 show ?thesis by (intro conjI)
qed

section \<open>C6: the combined result stays in range\<close>

lemma generate_result:
  assumes pos: "0 < rng"
    and num: "getNumber rng (say (Commit rng (calculateHMAC P (keyAt P (drawn w)) (secretAt P rng (drawn w))))
                               (w\<lparr>drawn := drawn w + 33\<rparr>)) = (Done (Value u), w1)"
  shows "generate P rng w =
           (Done (Value (Num ((secretAt P rng (drawn w) + u) mod rng))),
            say (ResultLine (secretAt P rng (drawn w)) u (Num ((secretAt P rng (drawn w) + u) mod rng)))
              (say (Reveal (secretAt P rng (drawn w)) (toHex (keyAt P (drawn w)))) w1))"
proof -
  have x: "0 \<le> secretAt P rng (drawn w)"
    using secretAt_range [OF pos, of P "drawn w"] by simp
  have u: "0 \<le> u"
    using getNumber_run [OF num] by simp
  have rb: "randomBytes P 32 w = (Done (keyAt P (drawn w)), w\<lparr>drawn := drawn w + 32\<rparr>)"
    by (simp add: randomBytes_def keyAt_def)
  have ri: "randomInt P rng (w\<lparr>drawn := drawn w + 32\<rparr>) =
              (Done (secretAt P rng (drawn w)), w\<lparr>drawn := drawn w + 33\<rparr>)"
    using pos by (simp add: randomInt_def secretAt_def)
  show ?thesis
    unfolding generate_def rb andThen_simps ri Let_def num
    using pos x u by (simp add: remainder_nonneg)
qed

text \<open>
  C6: for a secret and a counterpart contribution both in \<open>[0, range)\<close>, the combined
  result \<open>(secret + counterpart_value) mod range\<close> is a number in \<open>[0, range)\<close>: as
  \<^verbatim>\<open>computeResult\<close> of \<^verbatim>\<open>game.js\<close> computes it from the secret of the generator, and as
  \<^verbatim>\<open>generate\<close> of \<^verbatim>\<open>index.ts\<close> computes it from the secret it drew and the number that
  \<^verbatim>\<open>getNumber\<close> returned. Every number \<^verbatim>\<open>generate\<close> returns is such a result.
\<close>

theorem C6_result_in_range:
  "(0 \<le> secret \<and> secret < rng \<and> 0 \<le> counterpart \<and> counterpart < rng \<longrightarrow>
      (\<exists>r. computeResult \<lparr>frg_range = rng, frg_key = k, frg_x = secret, frg_hmac = h\<rparr> counterpart = Num r \<and>
           remainder (secret + counterpart) rng = Num r \<and>
           r = (secret + counterpart) mod rng \<and> 0 \<le> r \<and> r < rng)) \<and>
   (0 < rng \<longrightarrow> 0 \<le> secretAt P rng (drawn w) \<and> secretAt P rng (drawn w) < rng) \<and>
   (0 < rng \<and>
    getNumber rng (say (Commit rng (calculateHMAC P (keyAt P (drawn w)) (secretAt P rng (drawn w))))
                    (w\<lparr>drawn := drawn w + 33\<rparr>)) = (Done (Value u), w1) \<longrightarrow>
      0 \<le> u \<and> u < rng \<and>
      generate P rng w =
        (Done (Value (Num ((secretAt P rng (drawn w) + u) mod rng))),
         say (ResultLine (secretAt P rng (drawn w)) u (Num ((secretAt P rng (drawn w) + u) mod rng)))
           (say (Reveal (secretAt P rng (drawn w)) (toHex (keyAt P (drawn w)))) w1)) \<and>
      0 \<le> (secretAt P rng (drawn w) + u) mod rng \<and> (secretAt P rng (drawn w) + u) mod rng < rng) \<and>
   (0 < rng \<and> generate P rng w = (Done (Value res), v) \<longrightarrow>
      (\<exists>y r. 0 \<le> y \<and> y < rng \<and> res = Num r \<and> r = (secretAt P rng (drawn w) + y) mod rng \<and>
             0 \<le> r \<and> r < rng \<and> last (out v) = ResultLine (secretAt P rng (drawn w)) y res))"
proof (intro conjI impI)
  assume "0 \<le> secret \<and> secret < rng \<and> 0 \<le> counterpart \<and> counterpart < rng"
  then show "\<exists>r. computeResult \<lparr>frg_range = rng, frg_key = k, frg_x = secret, frg_hmac = h\<rparr> counterpart = Num r \<and>
           remainder (secret + counterpart) rng = Num r \<and>
           r = (secret + counterpart) mod rng \<and> 0 \<le> r \<and> r < rng"
    by (simp add: computeResult_def remainder_nonneg)
next
  assume "0 < rng"
  then show "0 \<le> secretAt P rng (drawn w)" "secretAt P rng (drawn w) < rng"
    using secretAt_range [of rng P "drawn w"] by simp_all
next
  assume a: "0 < rng \<and>
    getNumber rng (say (Commit rng (calculateHMAC P (keyAt P (drawn w)) (secretAt P rng (drawn w))))
                    (w\<lparr>drawn := drawn w + 33\<rparr>)) = (Done (Value u), w1)"
  then have pos: "0 < rng" and num: "getNumber rng (say (Commit rng (calculateHMAC P (keyAt P (drawn w)) (secretAt P rng (drawn w))))
                    (w\<lparr>drawn := drawn w + 33\<rparr>)) = (Done (Value u), w1)"
    by simp_all
  from getNumber_run [OF num] show "0 \<le> u" "u < rng" by simp_all
  from generate_result [OF pos num]
  show "generate P rng w =
        (Done (Value (Num ((secretAt P rng (drawn w) + u) mod rng))),
         say (ResultLine (secretAt P rng (drawn w)) u (Num ((secretAt P rng (drawn w) + u) mod rng)))
           (say (Reveal (secretAt P rng (drawn w)) (toHex (keyAt P (drawn w)))) w1))" .
  from pos show "0 \<le> (secretAt P rng (drawn w) + u) mod rng" "(secretAt P rng (drawn w) + u) mod rng < rng"
    by simp_all
next
  assume "0 < rng \<and> generate P rng w = (Done (Value res), v)"
  then have pos: "0 < rng" and g: "generate P rng w = (Done (Value res), v)" by simp_all
  from generate_run [OF g pos] obtain y evs where y: "0 \<le> y" "y < rng"
    "res = Num ((secretAt P rng (drawn w) + y) mod rng)"
    "out v = evs @ [Reveal (secretAt P rng (drawn w)) (toHex (keyAt P (drawn w))),
                    ResultLine (secretAt P rng (drawn w)) y res]"
    by auto
  with pos show "\<exists>y r. 0 \<le> y \<and> y < rng \<and> res = Num r \<and> r = (secretAt P rng (drawn w) + y) mod rng \<and>
             0 \<le> r \<and> r < rng \<and> last (out v) = ResultLine (secretAt P rng (drawn w)) y res"
    by auto
qed

theorem C6_result_in_range_witness:
  "(0::int) \<le> 4 \<and> (4::int) < 6 \<and> (0::int) \<le> 5 \<and> (5::int) < 6 \<and>
   (\<exists>r. computeResult \<lparr>frg_range = 6, frg_key = [], frg_x = 4, frg_hmac = []\<rparr> 5 = Num r \<and> remainder (4 + 5) 6 = Num r \<and> r = (4 + 5) mod 6 \<and> 0 \<le> r \<and> r < 6) \<and>
   (0::int) < 6 \<and>
   secretAt samplePlatform 6 (drawn (fresh [''5''])) = 2 \<and>
   fst (getNumber 6 (say (Commit 6 (calculateHMAC samplePlatform (keyAt samplePlatform (drawn (fresh [''5'']))) (secretAt samplePlatform 6 (drawn (fresh [''5'']))))) ((fresh [''5''])\<lparr>drawn := drawn (fresh [''5'']) + 33\<rparr>))) = Done (Value 5) \<and>
   fst (generate samplePlatform 6 (fresh [''5''])) = Done (Value (Num 1)) \<and>
   (0 \<le> secretAt samplePlatform 6 (drawn (fresh [''5''])) \<and> secretAt samplePlatform 6 (drawn (fresh [''5''])) < 6) \<and>
   (0 \<le> (5::int) \<and> (5::int) < 6 \<and>
      generate samplePlatform 6 (fresh [''5'']) =
        (Done (Value (Num ((secretAt samplePlatform 6 (drawn (fresh [''5''])) + 5) mod 6))),
         say (ResultLine (secretAt samplePlatform 6 (drawn (fresh [''5'']))) 5 (Num ((secretAt samplePlatform 6 (drawn (fresh [''5''])) + 5) mod 6)))
           (say (Reveal (secretAt samplePlatform 6 (drawn (fresh [''5'']))) (toHex (keyAt samplePlatform (drawn (fresh [''5'']))))) (snd (getNumber 6 (say (Commit 6 (calculateHMAC samplePlatform (keyAt samplePlatform (drawn (fresh [''5'']))) (secretAt samplePlatform 6 (drawn (fresh [''5'']))))) ((fresh [''5''])\<lparr>drawn := drawn (fresh [''5'']) + 33\<rparr>)))))) \<and>
      0 \<le> (secretAt samplePlatform 6 (drawn (fresh [''5''])) + 5) mod 6 \<and> (secretAt samplePlatform 6 (drawn (fresh [''5''])) + 5) mod 6 < 6) \<and>
   (\<exists>y r. 0 \<le> y \<and> y < 6 \<and> Num 1 = Num r \<and> r = (secretAt samplePlatform 6 (drawn (fresh [''5''])) + y) mod 6 \<and>
             0 \<le> r \<and> r < 6 \<and> last (out (snd (generate samplePlatform 6 (fresh [''5''])))) = ResultLine (secretAt samplePlatform 6 (drawn (fresh [''5'']))) y (Num 1))"
proof -
  let ?w = "fresh [''5'']"
  let ?wc = "(say (Commit 6 (calculateHMAC samplePlatform (keyAt samplePlatform (drawn (fresh [''5'']))) (secretAt samplePlatform 6 (drawn (fresh [''5'']))))) ((fresh [''5''])\<lparr>drawn := drawn (fresh [''5'']) + 33\<rparr>))"
  have pos: "(0::int) < 6" by simp
  have rg: "(0::int) \<le> 4 \<and> (4::int) < 6 \<and> (0::int) \<le> 5 \<and> (5::int) < 6" by simp
  have es: "secretAt samplePlatform 6 (drawn (fresh [''5''])) = 2"
    by (simp add: secretAt_def run_simps)
  have e1: "fst (getNumber 6 ?wc) = Done (Value 5)"
    by (simp add: keyAt_def secretAt_def ts_simps run_simps text_simps)
  have e2: "fst (generate samplePlatform 6 ?w) = Done (Value (Num 1))"
    by (simp add: ts_simps run_simps text_simps)
  have h1: "getNumber 6 ?wc = (Done (Value 5), snd (getNumber 6 ?wc))"
    using e1 by (metis prod.collapse)
  have h2: "generate samplePlatform 6 ?w = (Done (Value (Num 1)), snd (generate samplePlatform 6 ?w))"
    using e2 by (metis prod.collapse)
  note inst = C6_result_in_range [where secret = 4 and rng = 6 and counterpart = 5 and k = "[]" and h = "[]"
      and P = samplePlatform and w = ?w and u = 5 and ?w1.0 = "snd (getNumber 6 ?wc)"
      and res = "Num 1" and v = "snd (generate samplePlatform 6 ?w)"]
  from inst [THEN conjunct1, THEN mp, OF rg]
  have ca: "(\<exists>r. computeResult \<lparr>frg_range = 6, frg_key = [], frg_x = 4, frg_hmac = []\<rparr> 5 = Num r \<and> remainder (4 + 5) 6 = Num r \<and> r = (4 + 5) mod 6 \<and> 0 \<le> r \<and> r < 6)" .
  from inst [THEN conjunct2, THEN conjunct1, THEN mp, OF pos]
  have cb: "0 \<le> secretAt samplePlatform 6 (drawn (fresh [''5''])) \<and> secretAt samplePlatform 6 (drawn (fresh [''5''])) < 6" .
  from inst [THEN conjunct2, THEN conjunct2, THEN conjunct1, THEN mp, OF conjI, OF pos h1]
  have cc: "0 \<le> (5::int) \<and> (5::int) < 6 \<and>
      generate samplePlatform 6 (fresh [''5'']) =
        (Done (Value (Num ((secretAt samplePlatform 6 (drawn (fresh [''5''])) + 5) mod 6))),
         say (ResultLine (secretAt samplePlatform 6 (drawn (fresh [''5'']))) 5 (Num ((secretAt samplePlatform 6 (drawn (fresh [''5''])) + 5) mod 6)))
           (say (Reveal (secretAt samplePlatform 6 (drawn (fresh [''5'']))) (toHex (keyAt samplePlatform (drawn (fresh [''5'']))))) (snd (getNumber 6 (say (Commit 6 (calculateHMAC samplePlatform (keyAt samplePlatform (drawn (fresh [''5'']))) (secretAt samplePlatform 6 (drawn (fresh [''5'']))))) ((fresh [''5''])\<lparr>drawn := drawn (fresh [''5'']) + 33\<rparr>)))))) \<and>
      0 \<le> (secretAt samplePlatform 6 (drawn (fresh [''5''])) + 5) mod 6 \<and> (secretAt samplePlatform 6 (drawn (fresh [''5''])) + 5) mod 6 < 6" .
  from inst [THEN conjunct2, THEN conjunct2, THEN conjunct2, THEN mp, OF conjI, OF pos h2]
  have cd: "(\<exists>y r. 0 \<le> y \<and> y < 6 \<and> Num 1 = Num r \<and> r = (secretAt samplePlatform 6 (drawn (fresh [''5''])) + y) mod 6 \<and>
             0 \<le> r \<and> r < 6 \<and> last (out (snd (generate samplePlatform 6 (fresh [''5''])))) = ResultLine (secretAt samplePlatform 6 (drawn (fresh [''5'']))) y (Num 1))" .
  from rg ca pos es e1 e2 cb cc cd show ?thesis by (intro conjI) simp_all
qed

section \<open>The output of a run only grows\<close>

lemma start_selection_announces:
  "\<exists>rest. out (snd (start_selection P ds res w)) =
            out w @ FirstMover (if res = Num 0 then User else Computer) # rest"
proof -
  obtain r w' where run: "start_selection P ds res w = (r, w')" by fastforce
  show ?thesis
  proof (cases "res = Num 0")
    case True
    with run have "start_selection P ds (Num 0) w = (r, w')" by simp
    from start_selection_user [OF this] run True show ?thesis by auto
  next
    case False
    from start_selection_computer [OF run False] run False show ?thesis by auto
  qed
qed

lemma keeps:
  "\<exists>rest. out w' = out w @ rest \<Longrightarrow> \<exists>rest. out w = pre @ rest \<Longrightarrow> \<exists>rest. out w' = pre @ rest"
  by auto

lemma generate_extends:
  assumes run: "generate P rng w = (r, w')"
  shows "\<exists>rest. out w' = out w @ rest"
proof (cases "0 < rng")
  case True
  from generate_run [OF run True] show ?thesis by auto
next
  case False
  with run show ?thesis by (auto simp: generate_throws)
qed

lemma determineFirst_extends:
  assumes "determineFirst P w = (r, w')"
  shows "\<exists>rest. out w' = out w @ rest"
  using assms
  apply (simp add: determineFirst_def)
  apply (erule andThen_cases)
     apply (auto dest!: generate_extends simp: say_def split: nullable.splits)
  done

lemma roll_extends:
  assumes "roll P die player w = (r, w')"
  shows "\<exists>rest. out w' = out w @ rest"
  using assms
  apply (simp add: roll_def)
  apply (erule andThen_cases)
     apply (auto dest!: generate_extends simp: say_def Let_def split: nullable.splits)
  done

lemmas determineFirst_keeps = keeps [OF determineFirst_extends]

lemmas roll_keeps = keeps [OF roll_extends]

lemma selectDice_ts_offers:
  assumes run: "selectDice_ts P ds first w = (r, w')"
  shows "\<exists>rest. out w' = out w @ Offer first ds # rest"
proof (cases first)
  case User
  with run selectDice_ts_User [of P ds w r w'] show ?thesis by auto
next
  case Computer
  show ?thesis
  proof (cases "ds = []")
    case True
    with run Computer show ?thesis
      by (auto simp add: selectDice_ts_def randomInt_def say_def)
  next
    case False
    with run Computer selectDice_ts_Computer [of P ds w r w'] show ?thesis by auto
  qed
qed

lemma selectDice_ts_keeps:
  assumes "selectDice_ts P ds first w = (r, w')" and "\<exists>rest. out w = pre @ rest"
  shows "\<exists>rest. out w' = pre @ rest"
  using selectDice_ts_offers [OF assms(1)] assms(2) by auto

lemma play_keeps:
  "play P ds w = (r, w') \<Longrightarrow>
     (\<exists>rest. out w = pre @ rest) \<or>
     (\<exists>g u. determineFirst P w = (Done (Value g), u) \<and>
        (\<forall>r2 w2. selectDice_ts P ds g u = (r2, w2) \<longrightarrow> (\<exists>rest. out w2 = pre @ rest))) \<Longrightarrow>
     \<exists>rest. out w' = pre @ rest"
proof (induction P ds w arbitrary: r w' rule: play.induct)
  case (1 P ds w)
  let ?I = "\<lambda>x. \<exists>rest. out x = pre @ rest"
  obtain r1 w1 where d: "determineFirst P w = (r1, w1)" by fastforce
  have table: "?I (say (ShowTable ds) y)" if "?I y" for y
    using that by (auto simp: say_def)
  from "1.prems"(1) d have run: "(case (r1, w1) of
        (Exited, w1) \<Rightarrow> (Exited, w1)
      | (Waiting, w1) \<Rightarrow> (Waiting, w1)
      | (Threw, w1) \<Rightarrow> (Threw, w1)
      | (Done Null, w1) \<Rightarrow> play P ds (say (ShowTable ds) w1)
      | (Done (Value first), w1) \<Rightarrow>
          (case selectDice_ts P ds first w1 of
             (Exited, w2) \<Rightarrow> (Exited, w2)
           | (Waiting, w2) \<Rightarrow> (Waiting, w2)
           | (Threw, w2) \<Rightarrow> (Threw, w2)
           | (Done (Null, userDie), w2) \<Rightarrow> play P ds (say (ShowTable ds) w2)
           | (Done (Value computerDie, Null), w2) \<Rightarrow> play P ds (say (ShowTable ds) w2)
           | (Done (Value computerDie, Value userDie), w2) \<Rightarrow>
               (case roll P computerDie Computer w2 of
                  (Exited, w3) \<Rightarrow> (Exited, w3)
                | (Waiting, w3) \<Rightarrow> (Waiting, w3)
                | (Threw, w3) \<Rightarrow> (Threw, w3)
                | (Done Null, w3) \<Rightarrow> play P ds (say (ShowTable ds) w3)
                | (Done (Value computerRoll), w3) \<Rightarrow>
                    (case roll P userDie User w3 of
                       (Exited, w4) \<Rightarrow> (Exited, w4)
                     | (Waiting, w4) \<Rightarrow> (Waiting, w4)
                     | (Threw, w4) \<Rightarrow> (Threw, w4)
                     | (Done Null, w4) \<Rightarrow> play P ds (say (ShowTable ds) w4)
                     | (Done (Value userRoll), w4) \<Rightarrow>
                         (Done (),
                          say (if greater userRoll computerRoll then Win User
                               else if greater computerRoll userRoll then Win Computer
                               else Draw) w4))))) = (r, w')"
    by (subst (asm) play.simps) simp
  show ?case
  proof (cases r1)
    case (Done first)
    show ?thesis
    proof (cases first)
      case Null
      with d "1.prems"(2) Done have "?I w" by auto
      note b1 = determineFirst_keeps [OF d this]
      from run Done Null have "play P ds (say (ShowTable ds) w1) = (r, w')" by simp
      from "1.IH"(1) [OF d [symmetric] Done Null this disjI1 [OF table [OF b1]]] show ?thesis .
    next
      case (Value f)
      obtain r2 w2 where s: "selectDice_ts P ds f w1 = (r2, w2)" by fastforce
      have b2: "?I w2"
      proof -
        from "1.prems"(2) show ?thesis
        proof
          assume "?I w"
          from selectDice_ts_keeps [OF s determineFirst_keeps [OF d this]] show ?thesis .
        next
          assume "\<exists>g u. determineFirst P w = (Done (Value g), u) \<and>
                   (\<forall>r2 w2. selectDice_ts P ds g u = (r2, w2) \<longrightarrow> ?I w2)"
          with d Done Value s show ?thesis by auto
        qed
      qed
      show ?thesis
      proof (cases r2)
        case sel: (Done pair)
        obtain cd ud where pair: "pair = (cd, ud)" by (cases pair)
        show ?thesis
        proof (cases cd)
          case cNull: Null
          with run Done Value s sel pair have "play P ds (say (ShowTable ds) w2) = (r, w')" by simp
          from "1.IH"(2) [OF d [symmetric] Done Value s [symmetric] sel pair [symmetric] cNull this disjI1 [OF table [OF b2]]]
          show ?thesis .
        next
          case cVal: (Value c)
          show ?thesis
          proof (cases ud)
            case uNull: Null
            with run Done Value s sel pair cVal have "play P ds (say (ShowTable ds) w2) = (r, w')" by simp
            from "1.IH"(3) [OF d [symmetric] Done Value s [symmetric] sel pair [symmetric] cVal uNull
                 this disjI1 [OF table [OF b2]]]
            show ?thesis .
          next
            case uVal: (Value u)
            obtain r3 w3 where cr: "roll P c Computer w2 = (r3, w3)" by fastforce
            note b3 = roll_keeps [OF cr b2]
            show ?thesis
            proof (cases r3)
              case croll: (Done x)
              show ?thesis
              proof (cases x)
                case xNull: Null
                with run Done Value s sel pair cVal uVal cr croll
                have "play P ds (say (ShowTable ds) w3) = (r, w')" by simp
                from "1.IH"(4) [OF d [symmetric] Done Value s [symmetric] sel pair [symmetric] cVal uVal
                     cr [symmetric] croll xNull this disjI1 [OF table [OF b3]]]
                show ?thesis .
              next
                case xVal: (Value cval)
                obtain r4 w4 where ur: "roll P u User w3 = (r4, w4)" by fastforce
                note b4 = roll_keeps [OF ur b3]
                show ?thesis
                proof (cases r4)
                  case uroll: (Done y)
                  show ?thesis
                  proof (cases y)
                    case yNull: Null
                    with run Done Value s sel pair cVal uVal cr croll xVal ur uroll
                    have "play P ds (say (ShowTable ds) w4) = (r, w')" by simp
                    from "1.IH"(5) [OF d [symmetric] Done Value s [symmetric] sel pair [symmetric] cVal uVal
                         cr [symmetric] croll xVal ur [symmetric] uroll yNull this disjI1 [OF table [OF b4]]]
                    show ?thesis .
                  next
                    case (Value uval)
                    with run Done \<open>first = Value f\<close> s sel pair cVal uVal cr croll xVal ur uroll b4
                    show ?thesis by (auto simp: say_def)
                  qed
                qed (use run Done Value s sel pair cVal uVal cr croll xVal ur b4 in auto)
              qed
            qed (use run Done Value s sel pair cVal uVal cr b3 in auto)
          qed
        qed
      qed (use run Done Value s b2 in auto)
    qed
  next
    case Exited
    with d "1.prems"(2) have "?I w" by auto
    from determineFirst_keeps [OF d this] run Exited show ?thesis by simp
  next
    case Waiting
    with d "1.prems"(2) have "?I w" by auto
    from determineFirst_keeps [OF d this] run Waiting show ?thesis by simp
  next
    case Threw
    with d "1.prems"(2) have "?I w" by auto
    from determineFirst_keeps [OF d this] run Threw show ?thesis by simp
  qed
qed


lemma play_first:
  assumes d: "determineFirst P w = (Done (Value first), u)"
  shows "\<exists>rest. out (snd (play P ds w)) = out u @ Offer first ds # rest"
proof -
  obtain r w' where p: "play P ds w = (r, w')" by fastforce
  have "\<exists>rest. out w2 = (out u @ [Offer first ds]) @ rest" if "selectDice_ts P ds first u = (r2, w2)" for r2 w2
    using selectDice_ts_offers [OF that] by auto
  with d have "\<exists>g v. determineFirst P w = (Done (Value g), v) \<and>
        (\<forall>r2 w2. selectDice_ts P ds g v = (r2, w2) \<longrightarrow> (\<exists>rest. out w2 = (out u @ [Offer first ds]) @ rest))"
    by blast
  from play_keeps [OF p disjI2, OF this] p show ?thesis by simp
qed

lemma andThen_keeps:
  assumes "\<exists>rest. out (snd m) = pre @ rest"
    and "\<And>a w. \<exists>rest. out w = pre @ rest \<Longrightarrow> \<exists>rest. out (snd (k a w)) = pre @ rest"
  shows "\<exists>rest. out (snd (andThen m k)) = pre @ rest"
proof -
  obtain r w where m: "m = (r, w)" by fastforce
  with assms show ?thesis by (cases r) simp_all
qed

lemma start_roll_keeps:
  assumes "\<exists>rest. out w = pre @ rest"
  shows "\<exists>rest. out (snd (start_roll P who die w)) = pre @ rest"
proof -
  obtain r w' where run: "start_roll P who die w = (r, w')" by fastforce
  from start_roll_run [OF run] assms run show ?thesis by auto
qed

lemma start_first:
  assumes f: "start_firstMove P w = (Done res, w1)"
  shows "\<exists>rest. out (snd (start P ds w)) = out w1 @ FirstMover (if res = Num 0 then User else Computer) # rest"
proof -
  define pre where "pre = out w1 @ [FirstMover (if res = Num 0 then User else Computer)]"
  have sel: "\<exists>rest. out (snd (start_selection P ds res w1)) = pre @ rest"
    using start_selection_announces [of P ds res w1] by (simp add: pre_def)
  have fin: "\<exists>rest. out (snd (Done g, say e x)) = pre @ rest" if "\<exists>rest. out x = pre @ rest"
    for g :: game and e x
    using that by (auto simp: say_def)
  have "\<exists>rest. out (snd (start P ds w)) = pre @ rest"
    unfolding start_def f andThen_simps
  proof (rule andThen_keeps [OF sel], goal_cases)
    case (1 a x)
    obtain userDice computerDice where a: "a = (userDice, computerDice)" by (cases a)
    show ?case
      unfolding a prod.case
      by (intro andThen_keeps start_roll_keeps 1 fin)
  qed
  then show ?thesis by (simp add: pre_def)
qed

section \<open>C1: who moves first\<close>

lemma say_fields: "drawn (say e w) = drawn w" "inputs (say e w) = inputs w" "out (say e w) = out w @ [e]"
  by (simp_all add: say_def)

lemma start_firstMove_result:
  assumes num: "getUserNumber 2
      (say (Commit 2 (computeHMAC P (keyAt P (drawn w)) (secretAt P 2 (drawn w))))
         ((say (Announce ''first move'') w)\<lparr>drawn := drawn w + 33\<rparr>)) = (Done y, w1)"
  shows "start_firstMove P w =
           (Done (Num ((secretAt P 2 (drawn w) + y) mod 2)),
            say (Reveal (secretAt P 2 (drawn w)) (toHex (keyAt P (drawn w)))) w1)"
proof -
  have x: "0 \<le> secretAt P 2 (drawn w)"
    using secretAt_range [of 2 P "drawn w"] by simp
  have y: "0 \<le> y"
    using getUserNumber_run [OF num] by simp
  have ng: "newGenerator P 2 (say (Announce ''first move'') w) =
      (Done \<lparr>frg_range = 2, frg_key = keyAt P (drawn w), frg_x = secretAt P 2 (drawn w),
              frg_hmac = computeHMAC P (keyAt P (drawn w)) (secretAt P 2 (drawn w))\<rparr>,
       (say (Announce ''first move'') w)\<lparr>drawn := drawn w + 33\<rparr>)"
    by (simp add: newGenerator_eq say_fields)
  have hm: "getHMAC \<lparr>frg_range = a, frg_key = b, frg_x = c, frg_hmac = d\<rparr> = d" for a b c d
    by (simp add: getHMAC_def)
  show ?thesis
    unfolding start_firstMove_def ng andThen_simps hm num
    using x y by (simp add: computeResult_def reveal_def remainder_nonneg)
qed

lemma determineFirst_result:
  assumes num: "getNumber 2
      (say (Commit 2 (calculateHMAC P (keyAt P (drawn w)) (secretAt P 2 (drawn w))))
         ((say (Announce ''first selector'') w)\<lparr>drawn := drawn w + 33\<rparr>)) = (Done (Value y), w1)"
  shows "determineFirst P w =
           (Done (Value (if (secretAt P 2 (drawn w) + y) mod 2 = 0 then Computer else User)),
            say (ResultLine (secretAt P 2 (drawn w)) y (Num ((secretAt P 2 (drawn w) + y) mod 2)))
              (say (Reveal (secretAt P 2 (drawn w)) (toHex (keyAt P (drawn w)))) w1))"
proof -
  let ?v = "say (Announce ''first selector'') w"
  have "getNumber 2 (say (Commit 2 (calculateHMAC P (keyAt P (drawn ?v)) (secretAt P 2 (drawn ?v))))
                       (?v\<lparr>drawn := drawn ?v + 33\<rparr>)) = (Done (Value y), w1)"
    using num by (simp only: say_fields)
  from generate_result [OF _ this]
  have "generate P 2 ?v =
          (Done (Value (Num ((secretAt P 2 (drawn w) + y) mod 2))),
           say (ResultLine (secretAt P 2 (drawn w)) y (Num ((secretAt P 2 (drawn w) + y) mod 2)))
             (say (Reveal (secretAt P 2 (drawn w)) (toHex (keyAt P (drawn w)))) w1))"
    by (simp add: say_fields)
  then show ?thesis
    by (simp add: determineFirst_def)
qed

lemma determineFirst_run:
  assumes "determineFirst P w = (Done (Value first), u)"
  shows "\<exists>y. 0 \<le> y \<and> y < 2 \<and>
           first = (if (secretAt P 2 (drawn w) + y) mod 2 = 0 then Computer else User) \<and>
           ResultLine (secretAt P 2 (drawn w)) y (Num ((secretAt P 2 (drawn w) + y) mod 2)) \<in> set (out u)"
proof -
  from assms obtain res where g: "generate P 2 (say (Announce ''first selector'') w) = (Done (Value res), u)"
    and f: "first = (if res = Num 0 then Computer else User)"
    by (auto simp: determineFirst_def elim!: andThen_cases split: nullable.splits)
  from generate_run [OF g] obtain y evs where "0 \<le> y" "y < 2"
    "res = Num ((secretAt P 2 (drawn w) + y) mod 2)"
    "out u = evs @ [Reveal (secretAt P 2 (drawn w)) (toHex (keyAt P (drawn w))),
                    ResultLine (secretAt P 2 (drawn w)) y res]"
    by (auto simp: say_def)
  with f show ?thesis by auto
qed

text \<open>
  C1, as stated, fails for \<^verbatim>\<open>game.js\<close>, whose convention is the reverse: a result of 0 means
  that the user guessed the secret, and the user selects first. In the run below the
  secret is 0 and the user contributes 1: the result is 1 and \<^verbatim>\<open>game.js\<close> announces that the
  computer selects first.
\<close>

theorem C1_counterexample:
  "fst (start_firstMove zeroPlatform (fresh [''1''])) = Done (Num 1) \<and>
   Reveal 0 ''0000000000000000000000000000000000000000000000000000000000000000''
     \<in> set (out (snd (start zeroPlatform [dieA, dieB, dieC] (fresh [''1''])))) \<and>
   FirstMover Computer \<in> set (out (snd (start zeroPlatform [dieA, dieB, dieC] (fresh [''1''])))) \<and>
   FirstMover User \<notin> set (out (snd (start zeroPlatform [dieA, dieB, dieC] (fresh [''1'']))))"
  by (simp add: js_simps run_simps text_simps char_simps cells)

text \<open>
  C1, amended: the first-mover session has range 2, so its secret and its result are 0
  or 1, and the result, the secret plus the number the user entered modulo 2, decides the
  first mover by a fixed convention that differs between the two implementations. In
  \<^verbatim>\<open>index.ts\<close> a result of 0 means the computer moves first and a result of 1 the user:
  \<^verbatim>\<open>determineFirst\<close> returns that party, and \<^verbatim>\<open>play\<close> offers the full pool to it right after
  the result line. In \<^verbatim>\<open>game.js\<close> a result of 0 means the user selects first and any other
  result the computer: \<^verbatim>\<open>start\<close> announces that party right after the reveal. With secret 0
  and counterpart contribution 1 the result is 1.
\<close>

theorem C1_first_mover:
  "0 \<le> secretAt P 2 (drawn w) \<and> secretAt P 2 (drawn w) < 2 \<and>
   (getUserNumber 2
      (say (Commit 2 (computeHMAC P (keyAt P (drawn w)) (secretAt P 2 (drawn w))))
         ((say (Announce ''first move'') w)\<lparr>drawn := drawn w + 33\<rparr>)) = (Done y, w1) \<longrightarrow>
      0 \<le> y \<and> y < 2 \<and>
      start_firstMove P w =
        (Done (Num ((secretAt P 2 (drawn w) + y) mod 2)),
         say (Reveal (secretAt P 2 (drawn w)) (toHex (keyAt P (drawn w)))) w1) \<and>
      (\<exists>rest. out (snd (start P ds w)) =
         out w1 @ Reveal (secretAt P 2 (drawn w)) (toHex (keyAt P (drawn w)))
           # FirstMover (if (secretAt P 2 (drawn w) + y) mod 2 = 0 then User else Computer) # rest)) \<and>
   (start_firstMove P w = (Done res, v) \<longrightarrow>
      (\<exists>rest. out (snd (start P ds w)) = out v @ FirstMover (if res = Num 0 then User else Computer) # rest)) \<and>
   (getNumber 2
      (say (Commit 2 (calculateHMAC P (keyAt P (drawn w)) (secretAt P 2 (drawn w))))
         ((say (Announce ''first selector'') w)\<lparr>drawn := drawn w + 33\<rparr>)) = (Done (Value z), w2) \<longrightarrow>
      0 \<le> z \<and> z < 2 \<and>
      determineFirst P w =
        (Done (Value (if (secretAt P 2 (drawn w) + z) mod 2 = 0 then Computer else User)),
         say (ResultLine (secretAt P 2 (drawn w)) z (Num ((secretAt P 2 (drawn w) + z) mod 2)))
           (say (Reveal (secretAt P 2 (drawn w)) (toHex (keyAt P (drawn w)))) w2)) \<and>
      (\<exists>rest. out (snd (play P ds w)) =
         out w2 @ Reveal (secretAt P 2 (drawn w)) (toHex (keyAt P (drawn w)))
           # ResultLine (secretAt P 2 (drawn w)) z (Num ((secretAt P 2 (drawn w) + z) mod 2))
           # Offer (if (secretAt P 2 (drawn w) + z) mod 2 = 0 then Computer else User) ds # rest)) \<and>
   (determineFirst P w = (Done (Value first), u) \<longrightarrow>
      (\<exists>rest. out (snd (play P ds w)) = out u @ Offer first ds # rest) \<and>
      (\<exists>n. 0 \<le> n \<and> n < 2 \<and>
           first = (if (secretAt P 2 (drawn w) + n) mod 2 = 0 then Computer else User) \<and>
           ResultLine (secretAt P 2 (drawn w)) n (Num ((secretAt P 2 (drawn w) + n) mod 2)) \<in> set (out u))) \<and>
   computeResult \<lparr>frg_range = 2, frg_key = k, frg_x = 0, frg_hmac = h\<rparr> 1 = Num 1 \<and>
   remainder (0 + 1) 2 = Num 1"
proof (intro conjI impI)
  show "0 \<le> secretAt P 2 (drawn w)" "secretAt P 2 (drawn w) < 2"
    using secretAt_range [of 2 P "drawn w"] by simp_all
next
  assume num: "getUserNumber 2
      (say (Commit 2 (computeHMAC P (keyAt P (drawn w)) (secretAt P 2 (drawn w))))
         ((say (Announce ''first move'') w)\<lparr>drawn := drawn w + 33\<rparr>)) = (Done y, w1)"
  from getUserNumber_run [OF num] show "0 \<le> y" "y < 2" by simp_all
  note f = start_firstMove_result [OF num]
  from f show "start_firstMove P w =
        (Done (Num ((secretAt P 2 (drawn w) + y) mod 2)),
         say (Reveal (secretAt P 2 (drawn w)) (toHex (keyAt P (drawn w)))) w1)" .
  from start_first [OF f, of ds]
  show "\<exists>rest. out (snd (start P ds w)) =
         out w1 @ Reveal (secretAt P 2 (drawn w)) (toHex (keyAt P (drawn w)))
           # FirstMover (if (secretAt P 2 (drawn w) + y) mod 2 = 0 then User else Computer) # rest"
    by (simp add: say_fields)
next
  assume "start_firstMove P w = (Done res, v)"
  then show "\<exists>rest. out (snd (start P ds w)) = out v @ FirstMover (if res = Num 0 then User else Computer) # rest"
    by (rule start_first)
next
  assume num: "getNumber 2
      (say (Commit 2 (calculateHMAC P (keyAt P (drawn w)) (secretAt P 2 (drawn w))))
         ((say (Announce ''first selector'') w)\<lparr>drawn := drawn w + 33\<rparr>)) = (Done (Value z), w2)"
  from getNumber_run [OF num] show "0 \<le> z" "z < 2" by simp_all
  note d = determineFirst_result [OF num]
  from d show "determineFirst P w =
        (Done (Value (if (secretAt P 2 (drawn w) + z) mod 2 = 0 then Computer else User)),
         say (ResultLine (secretAt P 2 (drawn w)) z (Num ((secretAt P 2 (drawn w) + z) mod 2)))
           (say (Reveal (secretAt P 2 (drawn w)) (toHex (keyAt P (drawn w)))) w2))" .
  from play_first [OF d, of ds]
  show "\<exists>rest. out (snd (play P ds w)) =
         out w2 @ Reveal (secretAt P 2 (drawn w)) (toHex (keyAt P (drawn w)))
           # ResultLine (secretAt P 2 (drawn w)) z (Num ((secretAt P 2 (drawn w) + z) mod 2))
           # Offer (if (secretAt P 2 (drawn w) + z) mod 2 = 0 then Computer else User) ds # rest"
    by (simp add: say_fields)
next
  assume d: "determineFirst P w = (Done (Value first), u)"
  from play_first [OF d]
  show "\<exists>rest. out (snd (play P ds w)) = out u @ Offer first ds # rest" .
  from determineFirst_run [OF d]
  show "\<exists>n. 0 \<le> n \<and> n < 2 \<and>
           first = (if (secretAt P 2 (drawn w) + n) mod 2 = 0 then Computer else User) \<and>
           ResultLine (secretAt P 2 (drawn w)) n (Num ((secretAt P 2 (drawn w) + n) mod 2)) \<in> set (out u)" .
next
  show "computeResult \<lparr>frg_range = 2, frg_key = k, frg_x = 0, frg_hmac = h\<rparr> 1 = Num 1"
    by (simp add: computeResult_def remainder_def)
  show "remainder (0 + 1) 2 = Num 1"
    by (simp add: remainder_def)
qed

theorem C1_first_mover_witness:
  "secretAt zeroPlatform 2 (drawn (fresh [''1''])) = 0 \<and>
   fst (getUserNumber 2 (say (Commit 2 (computeHMAC zeroPlatform (keyAt zeroPlatform (drawn (fresh [''1'']))) (secretAt zeroPlatform 2 (drawn (fresh [''1'']))))) ((say (Announce ''first move'') (fresh [''1'']))\<lparr>drawn := drawn (fresh [''1'']) + 33\<rparr>))) = Done 1 \<and>
   fst (start_firstMove zeroPlatform (fresh [''1''])) = Done (Num 1) \<and>
   fst (getNumber 2 (say (Commit 2 (calculateHMAC zeroPlatform (keyAt zeroPlatform (drawn (fresh [''1'']))) (secretAt zeroPlatform 2 (drawn (fresh [''1'']))))) ((say (Announce ''first selector'') (fresh [''1'']))\<lparr>drawn := drawn (fresh [''1'']) + 33\<rparr>))) = Done (Value 1) \<and>
   fst (determineFirst zeroPlatform (fresh [''1''])) = Done (Value User) \<and>
   fst (determineFirst zeroPlatform (fresh [''0''])) = Done (Value Computer) \<and>
   (0 \<le> (1::int) \<and> (1::int) < 2 \<and>
      start_firstMove zeroPlatform (fresh [''1'']) =
        (Done (Num ((secretAt zeroPlatform 2 (drawn (fresh [''1''])) + 1) mod 2)),
         say (Reveal (secretAt zeroPlatform 2 (drawn (fresh [''1'']))) (toHex (keyAt zeroPlatform (drawn (fresh [''1'']))))) (snd (getUserNumber 2 (say (Commit 2 (computeHMAC zeroPlatform (keyAt zeroPlatform (drawn (fresh [''1'']))) (secretAt zeroPlatform 2 (drawn (fresh [''1'']))))) ((say (Announce ''first move'') (fresh [''1'']))\<lparr>drawn := drawn (fresh [''1'']) + 33\<rparr>))))) \<and>
      (\<exists>rest. out (snd (start zeroPlatform [dieA, dieB, dieC] (fresh [''1'']))) =
         out (snd (getUserNumber 2 (say (Commit 2 (computeHMAC zeroPlatform (keyAt zeroPlatform (drawn (fresh [''1'']))) (secretAt zeroPlatform 2 (drawn (fresh [''1'']))))) ((say (Announce ''first move'') (fresh [''1'']))\<lparr>drawn := drawn (fresh [''1'']) + 33\<rparr>)))) @ Reveal (secretAt zeroPlatform 2 (drawn (fresh [''1'']))) (toHex (keyAt zeroPlatform (drawn (fresh [''1'']))))
           # FirstMover (if (secretAt zeroPlatform 2 (drawn (fresh [''1''])) + 1) mod 2 = 0 then User else Computer) # rest)) \<and>
   (\<exists>rest. out (snd (start zeroPlatform [dieA, dieB, dieC] (fresh [''1'']))) = out (snd (start_firstMove zeroPlatform (fresh [''1'']))) @ FirstMover (if Num 1 = Num 0 then User else Computer) # rest) \<and>
   (0 \<le> (1::int) \<and> (1::int) < 2 \<and>
      determineFirst zeroPlatform (fresh [''1'']) =
        (Done (Value (if (secretAt zeroPlatform 2 (drawn (fresh [''1''])) + 1) mod 2 = 0 then Computer else User)),
         say (ResultLine (secretAt zeroPlatform 2 (drawn (fresh [''1'']))) 1 (Num ((secretAt zeroPlatform 2 (drawn (fresh [''1''])) + 1) mod 2)))
           (say (Reveal (secretAt zeroPlatform 2 (drawn (fresh [''1'']))) (toHex (keyAt zeroPlatform (drawn (fresh [''1'']))))) (snd (getNumber 2 (say (Commit 2 (calculateHMAC zeroPlatform (keyAt zeroPlatform (drawn (fresh [''1'']))) (secretAt zeroPlatform 2 (drawn (fresh [''1'']))))) ((say (Announce ''first selector'') (fresh [''1'']))\<lparr>drawn := drawn (fresh [''1'']) + 33\<rparr>)))))) \<and>
      (\<exists>rest. out (snd (play zeroPlatform [dieA, dieB, dieC] (fresh [''1'']))) =
         out (snd (getNumber 2 (say (Commit 2 (calculateHMAC zeroPlatform (keyAt zeroPlatform (drawn (fresh [''1'']))) (secretAt zeroPlatform 2 (drawn (fresh [''1'']))))) ((say (Announce ''first selector'') (fresh [''1'']))\<lparr>drawn := drawn (fresh [''1'']) + 33\<rparr>)))) @ Reveal (secretAt zeroPlatform 2 (drawn (fresh [''1'']))) (toHex (keyAt zeroPlatform (drawn (fresh [''1'']))))
           # ResultLine (secretAt zeroPlatform 2 (drawn (fresh [''1'']))) 1 (Num ((secretAt zeroPlatform 2 (drawn (fresh [''1''])) + 1) mod 2))
           # Offer (if (secretAt zeroPlatform 2 (drawn (fresh [''1''])) + 1) mod 2 = 0 then Computer else User) [dieA, dieB, dieC] # rest)) \<and>
   ((\<exists>rest. out (snd (play zeroPlatform [dieA, dieB, dieC] (fresh [''1'']))) = out (snd (determineFirst zeroPlatform (fresh [''1'']))) @ Offer User [dieA, dieB, dieC] # rest) \<and>
      (\<exists>n. 0 \<le> n \<and> n < 2 \<and>
           User = (if (secretAt zeroPlatform 2 (drawn (fresh [''1''])) + n) mod 2 = 0 then Computer else User) \<and>
           ResultLine (secretAt zeroPlatform 2 (drawn (fresh [''1'']))) n (Num ((secretAt zeroPlatform 2 (drawn (fresh [''1''])) + n) mod 2)) \<in> set (out (snd (determineFirst zeroPlatform (fresh [''1'']))))))"
proof -
  let ?w = "fresh [''1'']"
  let ?wcj = "(say (Commit 2 (computeHMAC zeroPlatform (keyAt zeroPlatform (drawn (fresh [''1'']))) (secretAt zeroPlatform 2 (drawn (fresh [''1'']))))) ((say (Announce ''first move'') (fresh [''1'']))\<lparr>drawn := drawn (fresh [''1'']) + 33\<rparr>))"
  let ?wct = "(say (Commit 2 (calculateHMAC zeroPlatform (keyAt zeroPlatform (drawn (fresh [''1'']))) (secretAt zeroPlatform 2 (drawn (fresh [''1'']))))) ((say (Announce ''first selector'') (fresh [''1'']))\<lparr>drawn := drawn (fresh [''1'']) + 33\<rparr>))"
  have es: "secretAt zeroPlatform 2 (drawn (fresh [''1''])) = 0"
    by (simp add: secretAt_def run_simps)
  have e1: "fst (getUserNumber 2 ?wcj) = Done 1"
    by (simp add: keyAt_def secretAt_def js_simps run_simps text_simps)
  have e2: "fst (start_firstMove zeroPlatform ?w) = Done (Num 1)"
    by (simp add: js_simps run_simps text_simps char_simps cells)
  have e3: "fst (getNumber 2 ?wct) = Done (Value 1)"
    by (simp add: keyAt_def secretAt_def ts_simps run_simps text_simps)
  have e4: "fst (determineFirst zeroPlatform ?w) = Done (Value User)"
    by (simp add: ts_simps run_simps text_simps char_simps cells)
  have e5: "fst (determineFirst zeroPlatform (fresh [''0''])) = Done (Value Computer)"
    by (simp add: ts_simps run_simps text_simps char_simps cells)
  have h1: "getUserNumber 2 ?wcj = (Done 1, snd (getUserNumber 2 ?wcj))"
    using e1 by (metis prod.collapse)
  have h2: "start_firstMove zeroPlatform ?w = (Done (Num 1), snd (start_firstMove zeroPlatform ?w))"
    using e2 by (metis prod.collapse)
  have h3: "getNumber 2 ?wct = (Done (Value 1), snd (getNumber 2 ?wct))"
    using e3 by (metis prod.collapse)
  have h4: "determineFirst zeroPlatform ?w = (Done (Value User), snd (determineFirst zeroPlatform ?w))"
    using e4 by (metis prod.collapse)
  note inst = C1_first_mover [where P = zeroPlatform and w = ?w and ds = "[dieA, dieB, dieC]" and y = 1
      and ?w1.0 = "snd (getUserNumber 2 ?wcj)" and res = "Num 1" and v = "snd (start_firstMove zeroPlatform ?w)"
      and z = 1 and ?w2.0 = "snd (getNumber 2 ?wct)" and first = User
      and u = "snd (determineFirst zeroPlatform ?w)"]
  note tl = inst [THEN conjunct2, THEN conjunct2]
  from tl [THEN conjunct1, THEN mp, OF h1]
  have c1: "0 \<le> (1::int) \<and> (1::int) < 2 \<and>
      start_firstMove zeroPlatform (fresh [''1'']) =
        (Done (Num ((secretAt zeroPlatform 2 (drawn (fresh [''1''])) + 1) mod 2)),
         say (Reveal (secretAt zeroPlatform 2 (drawn (fresh [''1'']))) (toHex (keyAt zeroPlatform (drawn (fresh [''1'']))))) (snd (getUserNumber 2 (say (Commit 2 (computeHMAC zeroPlatform (keyAt zeroPlatform (drawn (fresh [''1'']))) (secretAt zeroPlatform 2 (drawn (fresh [''1'']))))) ((say (Announce ''first move'') (fresh [''1'']))\<lparr>drawn := drawn (fresh [''1'']) + 33\<rparr>))))) \<and>
      (\<exists>rest. out (snd (start zeroPlatform [dieA, dieB, dieC] (fresh [''1'']))) =
         out (snd (getUserNumber 2 (say (Commit 2 (computeHMAC zeroPlatform (keyAt zeroPlatform (drawn (fresh [''1'']))) (secretAt zeroPlatform 2 (drawn (fresh [''1'']))))) ((say (Announce ''first move'') (fresh [''1'']))\<lparr>drawn := drawn (fresh [''1'']) + 33\<rparr>)))) @ Reveal (secretAt zeroPlatform 2 (drawn (fresh [''1'']))) (toHex (keyAt zeroPlatform (drawn (fresh [''1'']))))
           # FirstMover (if (secretAt zeroPlatform 2 (drawn (fresh [''1''])) + 1) mod 2 = 0 then User else Computer) # rest)" .
  from tl [THEN conjunct2, THEN conjunct1, THEN mp, OF h2]
  have c2: "(\<exists>rest. out (snd (start zeroPlatform [dieA, dieB, dieC] (fresh [''1'']))) = out (snd (start_firstMove zeroPlatform (fresh [''1'']))) @ FirstMover (if Num 1 = Num 0 then User else Computer) # rest)" .
  from tl [THEN conjunct2, THEN conjunct2, THEN conjunct1, THEN mp, OF h3]
  have c3: "0 \<le> (1::int) \<and> (1::int) < 2 \<and>
      determineFirst zeroPlatform (fresh [''1'']) =
        (Done (Value (if (secretAt zeroPlatform 2 (drawn (fresh [''1''])) + 1) mod 2 = 0 then Computer else User)),
         say (ResultLine (secretAt zeroPlatform 2 (drawn (fresh [''1'']))) 1 (Num ((secretAt zeroPlatform 2 (drawn (fresh [''1''])) + 1) mod 2)))
           (say (Reveal (secretAt zeroPlatform 2 (drawn (fresh [''1'']))) (toHex (keyAt zeroPlatform (drawn (fresh [''1'']))))) (snd (getNumber 2 (say (Commit 2 (calculateHMAC zeroPlatform (keyAt zeroPlatform (drawn (fresh [''1'']))) (secretAt zeroPlatform 2 (drawn (fresh [''1'']))))) ((say (Announce ''first selector'') (fresh [''1'']))\<lparr>drawn := drawn (fresh [''1'']) + 33\<rparr>)))))) \<and>
      (\<exists>rest. out (snd (play zeroPlatform [dieA, dieB, dieC] (fresh [''1'']))) =
         out (snd (getNumber 2 (say (Commit 2 (calculateHMAC zeroPlatform (keyAt zeroPlatform (drawn (fresh [''1'']))) (secretAt zeroPlatform 2 (drawn (fresh [''1'']))))) ((say (Announce ''first selector'') (fresh [''1'']))\<lparr>drawn := drawn (fresh [''1'']) + 33\<rparr>)))) @ Reveal (secretAt zeroPlatform 2 (drawn (fresh [''1'']))) (toHex (keyAt zeroPlatform (drawn (fresh [''1'']))))
           # ResultLine (secretAt zeroPlatform 2 (drawn (fresh [''1'']))) 1 (Num ((secretAt zeroPlatform 2 (drawn (fresh [''1''])) + 1) mod 2))
           # Offer (if (secretAt zeroPlatform 2 (drawn (fresh [''1''])) + 1) mod 2 = 0 then Computer else User) [dieA, dieB, dieC] # rest)" .
  from tl [THEN conjunct2, THEN conjunct2, THEN conjunct2, THEN conjunct1, THEN mp, OF h4]
  have c4: "(\<exists>rest. out (snd (play zeroPlatform [dieA, dieB, dieC] (fresh [''1'']))) = out (snd (determineFirst zeroPlatform (fresh [''1'']))) @ Offer User [dieA, dieB, dieC] # rest) \<and>
      (\<exists>n. 0 \<le> n \<and> n < 2 \<and>
           User = (if (secretAt zeroPlatform 2 (drawn (fresh [''1''])) + n) mod 2 = 0 then Computer else User) \<and>
           ResultLine (secretAt zeroPlatform 2 (drawn (fresh [''1'']))) n (Num ((secretAt zeroPlatform 2 (drawn (fresh [''1''])) + n) mod 2)) \<in> set (out (snd (determineFirst zeroPlatform (fresh [''1''])))))" .
  from es e1 e2 e3 e4 e5 c1 c2 c3 c4 show ?thesis by (intro conjI) simp_all
qed

section \<open>C5: the help input\<close>

lemma getNumber_help:
  assumes "inputs w = line # rest" and "toUpperCase (trim line) = ''?''"
  shows "getNumber rng w = (Done Null, w\<lparr>inputs := rest, out := out w @ [Ask rng]\<rparr>)"
  using assms by (simp add: getNumber_def say_def)

lemma generate_help:
  assumes "inputs w = line # rest" and "toUpperCase (trim line) = ''?''" and "0 < rng"
  shows "generate P rng w =
     (Done Null, w\<lparr>inputs := rest, drawn := drawn w + 33,
                   out := out w @ [Commit rng (calculateHMAC P (keyAt P (drawn w)) (secretAt P rng (drawn w))),
                                   Ask rng]\<rparr>)"
  using assms
  by (simp add: generate_def randomBytes_def randomInt_def getNumber_def say_def keyAt_def secretAt_def)

lemma determineFirst_help:
  assumes "inputs w = line # rest" and "toUpperCase (trim line) = ''?''"
  shows "determineFirst P w =
     (Done Null, w\<lparr>inputs := rest, drawn := drawn w + 33,
                   out := out w @ [Announce ''first selector'',
                                   Commit 2 (calculateHMAC P (keyAt P (drawn w)) (secretAt P 2 (drawn w))),
                                   Ask 2]\<rparr>)"
  using assms
  by (simp add: determineFirst_def generate_help [where line = line and rest = rest] say_def)

lemma roll_help:
  assumes "inputs w = line # rest" and "toUpperCase (trim line) = ''?''" and "0 < numFaces die"
  shows "roll P die player w =
     (Done Null, w\<lparr>inputs := rest, drawn := drawn w + 33,
                   out := out w @ [Announce ''roll'',
                                   Commit (int (numFaces die))
                                     (calculateHMAC P (keyAt P (drawn w)) (secretAt P (int (numFaces die)) (drawn w))),
                                   Ask (int (numFaces die))]\<rparr>)"
  using assms
  by (simp add: roll_def generate_help [where line = line and rest = rest] say_def)

text \<open>
  C5, as stated, fails for \<^verbatim>\<open>index.ts\<close>: there the help input ends the session without a
  result, and \<^verbatim>\<open>play\<close> shows the probability table and starts the game again. In the run
  below the user contributes 1, selects die 0 and types \<^verbatim>\<open>?\<close> when asked for the contribution
  to the computer's roll: the dice already selected are dropped, and the first-mover step
  is run again with a new commitment.
\<close>

theorem C5_counterexample:
  "play samplePlatform [dieA, dieB, dieC] (fresh [''1'', ''0'', ''?'']) =
     (Waiting,
      \<lparr>inputs = [], drawn = 100,
         out = [Announce ''first selector'', Commit 2 ''300001'', Ask 2,
                Reveal 0 ''000102030405060708090a0b0c0d0e0f101112131415161718191a1b1c1d1e1f'',
                ResultLine 0 1 (Num 1),
                Offer User [dieA, dieB, dieC], Ask 3, Chose User dieA,
                Offer Computer [dieB, dieC], Chose Computer dieC,
                Announce ''roll'', Commit 6 ''302223'', Ask 6,
                ShowTable [dieA, dieB, dieC],
                Announce ''first selector'', Commit 2 ''314344'', Ask 2]\<rparr>)"
  by (simp add: ts_simps run_simps text_simps char_simps cells)

text \<open>
  C5, amended: in \<^verbatim>\<open>game.js\<close> the help input during AwaitingCounterpart prints the help line
  and asks again in the same session: the call goes on as the same call on the remaining
  lines, with the tape, and so the commitment, untouched. In \<^verbatim>\<open>index.ts\<close> the help input
  makes \<^verbatim>\<open>getNumber\<close> return \<^verbatim>\<open>null\<close>; the session ends without result and without reveal,
  and \<^verbatim>\<open>play\<close>, whichever session it was, shows the probability table and runs the game
  again from the first-mover step, with a new commitment.
\<close>

theorem C5_help:
  "(toUpperCase (trim line) = ''?'' \<longrightarrow> inputs w = line # rest \<longrightarrow>
      getUserNumber rng w = getUserNumber rng (w\<lparr>inputs := rest, out := out w @ [Ask rng, HelpText]\<rparr>) \<and>
      getNumber rng w = (Done Null, w\<lparr>inputs := rest, out := out w @ [Ask rng]\<rparr>) \<and>
      (0 < rng \<longrightarrow>
         generate P rng w =
           (Done Null, w\<lparr>inputs := rest, drawn := drawn w + 33,
              out := out w @ [Commit rng (calculateHMAC P (keyAt P (drawn w)) (secretAt P rng (drawn w))),
                              Ask rng]\<rparr>)) \<and>
      (0 < numFaces die \<longrightarrow>
         roll P die player w =
           (Done Null, w\<lparr>inputs := rest, drawn := drawn w + 33,
              out := out w @ [Announce ''roll'',
                              Commit (int (numFaces die))
                                (calculateHMAC P (keyAt P (drawn w)) (secretAt P (int (numFaces die)) (drawn w))),
                              Ask (int (numFaces die))]\<rparr>)) \<and>
      play P ds w =
        play P ds (w\<lparr>inputs := rest, drawn := drawn w + 33,
           out := out w @ [Announce ''first selector'',
                           Commit 2 (calculateHMAC P (keyAt P (drawn w)) (secretAt P 2 (drawn w))),
                           Ask 2, ShowTable ds]\<rparr>)) \<and>
   (determineFirst P a = (Done (Value f), b) \<longrightarrow>
    selectDice_ts P ds f b = (Done (Value cd, Value ud), c) \<longrightarrow>
      (roll P cd Computer c = (Done Null, d) \<longrightarrow> play P ds a = play P ds (say (ShowTable ds) d)) \<and>
      (roll P cd Computer c = (Done (Value cr), d) \<longrightarrow> roll P ud User d = (Done Null, e) \<longrightarrow>
         play P ds a = play P ds (say (ShowTable ds) e)))"
proof (intro conjI impI)
  assume q: "toUpperCase (trim line) = ''?''" and i: "inputs w = line # rest"
  from q i show "getUserNumber rng w =
      getUserNumber rng (w\<lparr>inputs := rest, out := out w @ [Ask rng, HelpText]\<rparr>)"
    by (subst getUserNumber.simps) (simp add: say_def)
  from getNumber_help [OF i q]
  show "getNumber rng w = (Done Null, w\<lparr>inputs := rest, out := out w @ [Ask rng]\<rparr>)" .
  from determineFirst_help [OF i q, of P]
  show "play P ds w =
        play P ds (w\<lparr>inputs := rest, drawn := drawn w + 33,
           out := out w @ [Announce ''first selector'',
                           Commit 2 (calculateHMAC P (keyAt P (drawn w)) (secretAt P 2 (drawn w))),
                           Ask 2, ShowTable ds]\<rparr>)"
    by (subst play.simps) (simp add: say_def)
  {
    assume "0 < rng"
    from generate_help [OF i q this]
    show "generate P rng w =
           (Done Null, w\<lparr>inputs := rest, drawn := drawn w + 33,
              out := out w @ [Commit rng (calculateHMAC P (keyAt P (drawn w)) (secretAt P rng (drawn w))),
                              Ask rng]\<rparr>)" .
  }
  {
    assume "0 < numFaces die"
    from roll_help [OF i q this]
    show "roll P die player w =
           (Done Null, w\<lparr>inputs := rest, drawn := drawn w + 33,
              out := out w @ [Announce ''roll'',
                              Commit (int (numFaces die))
                                (calculateHMAC P (keyAt P (drawn w)) (secretAt P (int (numFaces die)) (drawn w))),
                              Ask (int (numFaces die))]\<rparr>)" .
  }
next
  assume "determineFirst P a = (Done (Value f), b)"
    and "selectDice_ts P ds f b = (Done (Value cd, Value ud), c)"
    and "roll P cd Computer c = (Done Null, d)"
  then show "play P ds a = play P ds (say (ShowTable ds) d)"
    by (subst play.simps) simp
next
  assume "determineFirst P a = (Done (Value f), b)"
    and "selectDice_ts P ds f b = (Done (Value cd, Value ud), c)"
    and "roll P cd Computer c = (Done (Value cr), d)"
    and "roll P ud User d = (Done Null, e)"
  then show "play P ds a = play P ds (say (ShowTable ds) e)"
    by (subst play.simps) simp
qed

theorem C5_help_witness:
  "toUpperCase (trim ''?'') = ''?'' \<and> inputs (fresh [''?'', ''1'']) = ''?'' # [''1''] \<and>
   (0 :: int) < 2 \<and> 0 < numFaces dieA \<and>
   getUserNumber 2 (fresh [''?'', ''1'']) =
     getUserNumber 2 ((fresh [''?'', ''1''])\<lparr>inputs := [''1''],
        out := out (fresh [''?'', ''1'']) @ [Ask 2, HelpText]\<rparr>) \<and>
   getUserNumber 2 (fresh [''?'', ''1'']) =
     (Done 1, \<lparr>inputs = [], drawn = 0, out = [Ask 2, HelpText, Ask 2]\<rparr>) \<and>
   getNumber 2 (fresh [''?'', ''1'']) = (Done Null, \<lparr>inputs = [''1''], drawn = 0, out = [Ask 2]\<rparr>) \<and>
   generate samplePlatform 2 (fresh [''?'', ''1'']) =
     (Done Null, \<lparr>inputs = [''1''], drawn = 33, out = [Commit 2 ''300001'', Ask 2]\<rparr>) \<and>
   play samplePlatform [dieA, dieB, dieC] (fresh [''1'', ''0'', ''?'']) =
     play samplePlatform [dieA, dieB, dieC]
       (say (ShowTable [dieA, dieB, dieC])
          (snd (roll samplePlatform dieC Computer (snd (selectDice_ts samplePlatform [dieA, dieB, dieC] User (snd (determineFirst samplePlatform (fresh [''1'', ''0'', ''?''])))))))) \<and>
   play samplePlatform [dieA, dieB, dieC] (fresh [''1'', ''0'', ''3'', ''?'']) =
     play samplePlatform [dieA, dieB, dieC]
       (say (ShowTable [dieA, dieB, dieC])
          (snd (roll samplePlatform dieA User (snd (roll samplePlatform dieC Computer (snd (selectDice_ts samplePlatform [dieA, dieB, dieC] User (snd (determineFirst samplePlatform (fresh [''1'', ''0'', ''3'', ''?'']))))))))))"
proof -
  let ?P = samplePlatform
  let ?ds = "[dieA, dieB, dieC]"
  let ?w = "fresh [''?'', ''1'']"
  let ?a = "fresh [''1'', ''0'', ''?'']"
  let ?b = "snd (determineFirst ?P ?a)"
  let ?c = "snd (selectDice_ts ?P ?ds User ?b)"
  let ?d = "snd (roll ?P dieC Computer ?c)"
  let ?a' = "fresh [''1'', ''0'', ''3'', ''?'']"
  let ?b' = "snd (determineFirst ?P ?a')"
  let ?c' = "snd (selectDice_ts ?P ?ds User ?b')"
  let ?d' = "snd (roll ?P dieC Computer ?c')"
  let ?e' = "snd (roll ?P dieA User ?d')"
  have q: "toUpperCase (trim ''?'') = ''?''" by (simp add: text_simps)
  have i: "inputs ?w = ''?'' # [''1'']" by (simp add: fresh_def)
  have pos: "(0 :: int) < 2" by simp
  have faces: "0 < numFaces dieA" by (simp add: run_simps)
  have h1: "determineFirst ?P ?a = (Done (Value User), ?b)"
    using prod.collapse [of "determineFirst ?P ?a"]
    by (simp add: ts_simps run_simps text_simps char_simps cells)
  have h2: "selectDice_ts ?P ?ds User ?b = (Done (Value dieC, Value dieA), ?c)"
    using prod.collapse [of "selectDice_ts ?P ?ds User ?b"]
    by (simp add: ts_simps run_simps text_simps char_simps cells)
  have h3: "roll ?P dieC Computer ?c = (Done Null, ?d)"
    using prod.collapse [of "roll ?P dieC Computer ?c"]
    by (simp add: ts_simps run_simps text_simps char_simps cells)
  have k1: "determineFirst ?P ?a' = (Done (Value User), ?b')"
    using prod.collapse [of "determineFirst ?P ?a'"]
    by (simp add: ts_simps run_simps text_simps char_simps cells)
  have k2: "selectDice_ts ?P ?ds User ?b' = (Done (Value dieC, Value dieA), ?c')"
    using prod.collapse [of "selectDice_ts ?P ?ds User ?b'"]
    by (simp add: ts_simps run_simps text_simps char_simps cells)
  have k3: "roll ?P dieC Computer ?c' = (Done (Value (Some 5)), ?d')"
    using prod.collapse [of "roll ?P dieC Computer ?c'"]
    by (simp add: ts_simps run_simps text_simps char_simps cells)
  have k4: "roll ?P dieA User ?d' = (Done Null, ?e')"
    using prod.collapse [of "roll ?P dieA User ?d'"]
    by (simp add: ts_simps run_simps text_simps char_simps cells)
  note hlp = C5_help [where line = "''?''" and rest = "[''1'']" and w = ?w and rng = 2 and P = ?P
      and die = dieA and player = User and ds = ?ds and a = ?a and f = User and b = ?b
      and cd = dieC and ud = dieA and c = ?c and d = ?d, THEN conjunct1, THEN mp, THEN mp, OF q i]
  note again = C5_help [where P = ?P and ds = ?ds and a = ?a and f = User and b = ?b
      and cd = dieC and ud = dieA and c = ?c and d = ?d, THEN conjunct2, THEN mp, THEN mp, OF h1 h2,
      THEN conjunct1, THEN mp, OF h3]
  note again' = C5_help [where P = ?P and ds = ?ds and a = ?a' and f = User and b = ?b'
      and cd = dieC and ud = dieA and c = ?c' and d = ?d' and cr = "Some 5" and e = ?e',
      THEN conjunct2, THEN mp, THEN mp, OF k1 k2, THEN conjunct2, THEN mp, THEN mp, OF k3 k4]
  have e1: "getUserNumber 2 ?w = (Done 1, \<lparr>inputs = [], drawn = 0, out = [Ask 2, HelpText, Ask 2]\<rparr>)"
    by (simp add: js_simps run_simps text_simps)
  from hlp [THEN conjunct2, THEN conjunct1]
  have e2: "getNumber 2 ?w = (Done Null, \<lparr>inputs = [''1''], drawn = 0, out = [Ask 2]\<rparr>)"
    by (simp add: fresh_def)
  from hlp [THEN conjunct2, THEN conjunct2, THEN conjunct1, THEN mp, OF pos]
  have e3: "generate ?P 2 ?w = (Done Null, \<lparr>inputs = [''1''], drawn = 33, out = [Commit 2 ''300001'', Ask 2]\<rparr>)"
    by (simp add: fresh_def keyAt_def secretAt_def calculateHMAC_def samplePlatform_def char_simps cells)
  from q i pos faces hlp [THEN conjunct1] e1 e2 e3 again again' show ?thesis
    by (intro conjI)
qed

end
